theory Spec2Isabelle
  imports Main "HOL-Library.AList"
begin

section \<open>The live tree\<close>

text \<open>
  \<^verbatim>\<open>BrowserRenderer.ts\<close> mutates a browser DOM.  The DOM is kept as an explicit store:
  every node object has an identity (a number handed out by the creation functions) and
  a record of the fields the renderer reads or writes.  The store never forgets a node;
  a node that was removed from its parent simply has no parent any more.
\<close>

type_synonym nid = nat

datatype node_type = ElementNode | TextNode | CommentNode

datatype event_info_type = Mouse | Keyboard | Change

text \<open>
  A listener is the function object created by one evaluation of an arrow function in
  \<^verbatim>\<open>applyAttribute\<close>: \<open>handle\<close> is its identity, the other fields are the variables
  the closure captures.
\<close>

record listener =
  handle :: nat
  forRenderer :: int
  forComponent :: int
  forHandler :: int
  infoType :: event_info_type
  targetIsCheckbox :: bool

record node =
  nodeType :: node_type
  localName :: string
  data :: string
  parentNode :: "nid option"
  childNodes :: "nid list"
  attributes :: "(string \<times> string) list"
  checked :: bool
  valueProp :: "string option option"
  eventListeners :: "(string \<times> listener) list"
  blazorClickListener :: "listener option"
  blazorChangeListener :: "listener option"
  blazorKeypressListener :: "listener option"

text \<open>
  The renderer object and the document together: \<open>nodes\<close> is the store,
  \<open>nextNode\<close> the identity the next created node gets, \<open>nextListener\<close> the identity of
  the next function object, \<open>childComponentLocations\<close> and \<open>browserRendererId\<close> the two
  fields of the class.  An absent key of \<open>childComponentLocations\<close> and a key bound to
  \<^verbatim>\<open>undefined\<close> are both \<open>None\<close>: the code only ever tests \<^verbatim>\<open>!marker\<close>.
\<close>

record state =
  nodes :: "nid \<Rightarrow> node"
  nextNode :: nid
  nextListener :: nat
  childComponentLocations :: "int \<Rightarrow> nid option"
  browserRendererId :: int

datatype error =
    UnknownComponent
  | MisplacedAttributeFrame
  | TypeError
  | HierarchyRequestError
  | NotFoundError
  | BadPointer

subsection \<open>Strings\<close>

definition to_upper :: "char \<Rightarrow> char" where
  "to_upper c =
     (case map_of (zip ''abcdefghijklmnopqrstuvwxyz'' ''ABCDEFGHIJKLMNOPQRSTUVWXYZ'') c of
        None \<Rightarrow> c
      | Some u \<Rightarrow> u)"

definition to_lower :: "char \<Rightarrow> char" where
  "to_lower c =
     (case map_of (zip ''ABCDEFGHIJKLMNOPQRSTUVWXYZ'' ''abcdefghijklmnopqrstuvwxyz'') c of
        None \<Rightarrow> c
      | Some l \<Rightarrow> l)"

text \<open>What JavaScript makes of a nullable string where a string is wanted.\<close>

definition js_string :: "string option \<Rightarrow> string" where
  "js_string v = (case v of None \<Rightarrow> ''null'' | Some t \<Rightarrow> t)"

subsection \<open>Node creation\<close>

definition blank :: "node_type \<Rightarrow> string \<Rightarrow> string \<Rightarrow> node" where
  "blank k nm d =
     \<lparr> nodeType = k, localName = nm, data = d, parentNode = None, childNodes = [],
       attributes = [], checked = False, valueProp = None, eventListeners = [],
       blazorClickListener = None, blazorChangeListener = None,
       blazorKeypressListener = None \<rparr>"

definition alloc :: "state \<Rightarrow> node \<Rightarrow> nid \<times> state" where
  "alloc s n = (nextNode s, s\<lparr> nodes := (nodes s)(nextNode s := n), nextNode := Suc (nextNode s) \<rparr>)"

text \<open>
  \<^verbatim>\<open>document.createElement\<close> of an HTML document lower-cases the name.  The
  \<^verbatim>\<open>InvalidCharacterError\<close> that a name which is not a valid element name raises is not
  modelled: creation always succeeds here, and the properties below that involve it are
  about calls that succeed.
\<close>

definition createElement :: "state \<Rightarrow> string \<Rightarrow> nid \<times> state" where
  "createElement s tag = alloc s (blank ElementNode (map to_lower tag) [])"

definition createTextNode :: "state \<Rightarrow> string \<Rightarrow> nid \<times> state" where
  "createTextNode s txt = alloc s (blank TextNode [] txt)"

definition createComment :: "state \<Rightarrow> string \<Rightarrow> nid \<times> state" where
  "createComment s txt = alloc s (blank CommentNode [] txt)"

subsection \<open>Reading the tree\<close>

text \<open>\<^verbatim>\<open>element.tagName\<close>: upper case for an element, \<^verbatim>\<open>undefined\<close> for other nodes.\<close>

definition tagName :: "state \<Rightarrow> nid \<Rightarrow> string option" where
  "tagName s n =
     (if nodeType (nodes s n) = ElementNode then Some (map to_upper (localName (nodes s n)))
      else None)"

text \<open>\<^verbatim>\<open>childNodes[i]\<close>: \<^verbatim>\<open>undefined\<close> outside the list.\<close>

definition child_at :: "nid list \<Rightarrow> int \<Rightarrow> nid option" where
  "child_at cs i = (if 0 \<le> i \<and> i < int (length cs) then Some (cs ! nat i) else None)"

text \<open>\<^verbatim>\<open>Array.prototype.indexOf\<close>: the first position, or \<open>-1\<close>.\<close>

fun indexOf :: "nid list \<Rightarrow> nid \<Rightarrow> int" where
  "indexOf [] x = -1"
| "indexOf (c # cs) x = (if c = x then 0 else (let r = indexOf cs x in if r < 0 then r else r + 1))"

definition parentElement :: "state \<Rightarrow> nid \<Rightarrow> nid option" where
  "parentElement s n =
     (case parentNode (nodes s n) of
        None \<Rightarrow> None
      | Some p \<Rightarrow> if nodeType (nodes s p) = ElementNode then Some p else None)"

definition getAttribute :: "state \<Rightarrow> nid \<Rightarrow> string \<Rightarrow> string option" where
  "getAttribute s n nm = map_of (attributes (nodes s n)) (map to_lower nm)"

subsection \<open>Changing the tree\<close>

definition upd :: "state \<Rightarrow> nid \<Rightarrow> (node \<Rightarrow> node) \<Rightarrow> state" where
  "upd s n f = s\<lparr> nodes := (nodes s)(n := f (nodes s n)) \<rparr>"

text \<open>Taking a node out of its parent's child list, when it has a parent.\<close>

definition detach :: "state \<Rightarrow> nid \<Rightarrow> state" where
  "detach s c =
     (case parentNode (nodes s c) of
        None \<Rightarrow> s
      | Some p \<Rightarrow>
          upd (upd s p (\<lambda>n. n\<lparr> childNodes := remove1 c (childNodes n) \<rparr>))
              c (\<lambda>n. n\<lparr> parentNode := None \<rparr>))"

text \<open>
  \<^verbatim>\<open>parent.appendChild(node)\<close>.  The argument may be \<^verbatim>\<open>undefined\<close> (a type error); a
  parent that is not an element cannot take children; a node that sits somewhere in the
  tree is taken out of its old place first.
\<close>

definition appendChild :: "state \<Rightarrow> nid \<Rightarrow> nid option \<Rightarrow> error + state" where
  "appendChild s p node =
     (case node of
        None \<Rightarrow> Inl TypeError
      | Some c \<Rightarrow>
          if nodeType (nodes s p) \<noteq> ElementNode then Inl HierarchyRequestError
          else
            (let s1 = detach s c in
             Inr (upd (upd s1 p (\<lambda>n. n\<lparr> childNodes := childNodes n @ [c] \<rparr>))
                      c (\<lambda>n. n\<lparr> parentNode := Some p \<rparr>))))"

text \<open>
  \<^verbatim>\<open>parent.insertBefore(node, child)\<close>; a \<^verbatim>\<open>child\<close> of \<^verbatim>\<open>undefined\<close> or \<^verbatim>\<open>null\<close> means
  "at the end".
\<close>

definition insertBefore :: "state \<Rightarrow> nid \<Rightarrow> nid \<Rightarrow> nid option \<Rightarrow> error + state" where
  "insertBefore s p c child =
     (case child of
        None \<Rightarrow> appendChild s p (Some c)
      | Some r \<Rightarrow>
          if nodeType (nodes s p) \<noteq> ElementNode then Inl HierarchyRequestError
          else if parentNode (nodes s r) \<noteq> Some p then Inl NotFoundError
          else
            (let s1 = detach s c in
             Inr (upd (upd s1 p (\<lambda>n. n\<lparr> childNodes :=
                                   takeWhile (\<lambda>x. x \<noteq> r) (childNodes n) @ c #
                                   dropWhile (\<lambda>x. x \<noteq> r) (childNodes n) \<rparr>))
                      c (\<lambda>n. n\<lparr> parentNode := Some p \<rparr>))))"

text \<open>\<^verbatim>\<open>parent.removeChild(child)\<close>.\<close>

definition removeChild :: "state \<Rightarrow> nid \<Rightarrow> nid option \<Rightarrow> error + state" where
  "removeChild s p child =
     (case child of
        None \<Rightarrow> Inl TypeError
      | Some c \<Rightarrow>
          if parentNode (nodes s c) \<noteq> Some p then Inl NotFoundError
          else Inr (detach s c))"


definition insertNodeIntoDOM :: "state \<Rightarrow> nid \<Rightarrow> nid option \<Rightarrow> int \<Rightarrow> error + state" where
  "insertNodeIntoDOM s node parent childIndex =
     (case parent of
        None \<Rightarrow> Inl TypeError
      | Some p \<Rightarrow>
          if childIndex \<ge> int (length (childNodes (nodes s p))) then appendChild s p (Some node)
          else insertBefore s p node (child_at (childNodes (nodes s p)) childIndex))"

definition removeNodeFromDOM :: "state \<Rightarrow> nid option \<Rightarrow> int \<Rightarrow> error + state" where
  "removeNodeFromDOM s parent childIndex =
     (case parent of
        None \<Rightarrow> Inl TypeError
      | Some p \<Rightarrow> removeChild s p (child_at (childNodes (nodes s p)) childIndex))"

text \<open>
  \<^verbatim>\<open>setAttribute\<close> and \<^verbatim>\<open>removeAttribute\<close> exist on elements only (calling them on
  a text or comment node is a type error); an HTML element lower-cases the name.  The
  \<^verbatim>\<open>InvalidCharacterError\<close> of \<^verbatim>\<open>setAttribute\<close> on a name that is not a valid attribute
  name is not modelled.
\<close>

definition setAttribute :: "state \<Rightarrow> nid \<Rightarrow> string \<Rightarrow> string \<Rightarrow> error + state" where
  "setAttribute s n nm v =
     (if nodeType (nodes s n) \<noteq> ElementNode then Inl TypeError
      else Inr (upd s n (\<lambda>x. x\<lparr> attributes := AList.update (map to_lower nm) v (attributes x) \<rparr>)))"

definition removeAttribute :: "state \<Rightarrow> nid \<Rightarrow> string \<Rightarrow> error + state" where
  "removeAttribute s n nm =
     (if nodeType (nodes s n) \<noteq> ElementNode then Inl TypeError
      else Inr (upd s n (\<lambda>x. x\<lparr> attributes := AList.delete (map to_lower nm) (attributes x) \<rparr>)))"

definition removeAttributeFromDOM :: "state \<Rightarrow> nid option \<Rightarrow> int \<Rightarrow> string \<Rightarrow> error + state" where
  "removeAttributeFromDOM s parent childIndex nm =
     (case parent of
        None \<Rightarrow> Inl TypeError
      | Some p \<Rightarrow>
          (case child_at (childNodes (nodes s p)) childIndex of
             None \<Rightarrow> Inl TypeError
           | Some element \<Rightarrow> removeAttribute s element nm))"

text \<open>
  Assigning \<^verbatim>\<open>textContent\<close>: character data of a text or comment node is replaced
  (\<^verbatim>\<open>null\<close> counts as the empty string); on an element all children are replaced by
  one text node, or by nothing when the string is empty.
\<close>

definition removeAllChildren :: "state \<Rightarrow> nid \<Rightarrow> state" where
  "removeAllChildren s n =
     s\<lparr> nodes := (\<lambda>x. if x = n then (nodes s n)\<lparr> childNodes := [] \<rparr>
                      else if x \<in> set (childNodes (nodes s n)) then (nodes s x)\<lparr> parentNode := None \<rparr>
                      else nodes s x) \<rparr>"

definition set_textContent :: "state \<Rightarrow> nid \<Rightarrow> string option \<Rightarrow> error + state" where
  "set_textContent s n v =
     (let txt = (case v of None \<Rightarrow> [] | Some t \<Rightarrow> t) in
      if nodeType (nodes s n) = ElementNode then
        (let s1 = removeAllChildren s n in
         if txt = [] then Inr s1
         else (let (t, s2) = createTextNode s1 txt in appendChild s2 n (Some t)))
      else Inr (upd s n (\<lambda>x. x\<lparr> data := txt \<rparr>)))"

text \<open>
  Event listeners.  Removing \<^verbatim>\<open>undefined\<close> does nothing; adding a function object that
  is already registered for the event does nothing.
\<close>

definition removeEventListener :: "state \<Rightarrow> nid \<Rightarrow> string \<Rightarrow> listener option \<Rightarrow> state" where
  "removeEventListener s n ty l =
     (case l of
        None \<Rightarrow> s
      | Some f \<Rightarrow> upd s n (\<lambda>x. x\<lparr> eventListeners := removeAll (ty, f) (eventListeners x) \<rparr>))"

definition addEventListener :: "state \<Rightarrow> nid \<Rightarrow> string \<Rightarrow> listener \<Rightarrow> state" where
  "addEventListener s n ty f =
     upd s n (\<lambda>x. x\<lparr> eventListeners :=
                       (if (ty, f) \<in> set (eventListeners x) then eventListeners x
                        else eventListeners x @ [(ty, f)]) \<rparr>)"

text \<open>Evaluating an arrow function: a new function object closing over the given values.\<close>

definition newListener :: "state \<Rightarrow> int \<Rightarrow> int \<Rightarrow> event_info_type \<Rightarrow> bool \<Rightarrow> listener \<times> state" where
  "newListener s cid eventHandlerId ty chk =
     (\<lparr> handle = nextListener s, forRenderer = browserRendererId s, forComponent = cid,
        forHandler = eventHandlerId, infoType = ty, targetIsCheckbox = chk \<rparr>,
      s\<lparr> nextListener := Suc (nextListener s) \<rparr>)"

section \<open>Frames and edits\<close>

text \<open>
  Modelled from the spec: the readers of the two flat tables (\<^verbatim>\<open>./RenderTreeFrame\<close>,
  \<^verbatim>\<open>./RenderTreeEdit\<close>) are imported by \<^verbatim>\<open>BrowserRenderer.ts\<close> and are not part of
  the sources.  A frame is the record of what the accessors of \<^verbatim>\<open>renderTreeFrame\<close>
  return for it, an edit one of the seven variants of the spec's data model with the
  fields \<^verbatim>\<open>siblingIndex\<close>, \<^verbatim>\<open>newTreeIndex\<close> and \<^verbatim>\<open>removedAttributeName\<close>.  Reading
  a table outside its bounds has no defined result in the source (the readers do pointer
  arithmetic); here it is the error \<open>BadPointer\<close>.
\<close>

datatype frame_type = FT_element | FT_text | FT_attribute | FT_component | FT_region

record frame =
  frameType :: frame_type
  subtreeLength :: nat
  elementName :: "string option"
  textContent :: "string option"
  attributeName :: "string option"
  attributeValue :: "string option"
  attributeEventHandlerId :: int
  componentId :: int

datatype edit =
    PrependFrame int nat
  | RemoveFrame int
  | SetAttribute int nat
  | RemoveAttribute int "string option"
  | UpdateText int nat
  | StepIn int
  | StepOut

definition getTreeFramePtr :: "frame list \<Rightarrow> nat \<Rightarrow> error + frame" where
  "getTreeFramePtr frames i = (if i < length frames then Inr (frames ! i) else Inl BadPointer)"

definition getRenderTreeEditPtr :: "edit list \<Rightarrow> nat \<Rightarrow> error + edit" where
  "getRenderTreeEditPtr edits i = (if i < length edits then Inr (edits ! i) else Inl BadPointer)"

section \<open>The renderer\<close>

subsection \<open>Attributes\<close>

definition isCheckbox :: "state \<Rightarrow> nid \<Rightarrow> bool" where
  "isCheckbox s element \<longleftrightarrow>
     tagName s element = Some ''INPUT'' \<and> getAttribute s element ''type'' = Some ''checkbox''"

definition tryApplyValueProperty :: "state \<Rightarrow> nid \<Rightarrow> string option \<Rightarrow> bool \<times> state" where
  "tryApplyValueProperty s element v =
     (if tagName s element = Some ''INPUT'' \<or> tagName s element = Some ''SELECT'' then
        (if isCheckbox s element
         then (True, upd s element (\<lambda>x. x\<lparr> checked := (v = Some ''True'') \<rparr>))
         else (True, upd s element (\<lambda>x. x\<lparr> valueProp := Some v \<rparr>)))
      else (False, s))"

text \<open>
  \<^verbatim>\<open>toDomElement\<close> is \<^verbatim>\<open>undefined\<close> when the addressed position has no node; every
  path through the function then dereferences it.
\<close>

definition applyAttribute :: "state \<Rightarrow> int \<Rightarrow> nid option \<Rightarrow> frame \<Rightarrow> error + state" where
  "applyAttribute s cid toDomElement attributeFrame =
     (case toDomElement of
        None \<Rightarrow> Inl TypeError
      | Some el \<Rightarrow>
          (let nm = attributeName attributeFrame;
               eventHandlerId = attributeEventHandlerId attributeFrame;
               (handled, s1) = (if nm = Some ''value''
                                then tryApplyValueProperty s el (attributeValue attributeFrame)
                                else (False, s))
           in
             if handled then Inr s1
             else if nm = Some ''onclick'' then
               (let s2 = removeEventListener s1 el ''click'' (blazorClickListener (nodes s1 el));
                    (l, s3) = newListener s2 cid eventHandlerId Mouse False;
                    s4 = upd s3 el (\<lambda>x. x\<lparr> blazorClickListener := Some l \<rparr>)
                in Inr (addEventListener s4 el ''click'' l))
             else if nm = Some ''onchange'' then
               (let s2 = removeEventListener s1 el ''change'' (blazorChangeListener (nodes s1 el));
                    (l, s3) = newListener s2 cid eventHandlerId Change (isCheckbox s2 el);
                    s4 = upd s3 el (\<lambda>x. x\<lparr> blazorChangeListener := Some l \<rparr>)
                in Inr (addEventListener s4 el ''change'' l))
             else if nm = Some ''onkeypress'' then
               (let s2 = removeEventListener s1 el ''keypress'' (blazorKeypressListener (nodes s1 el));
                    (l, s3) = newListener s2 cid eventHandlerId Keyboard False;
                    s4 = upd s3 el (\<lambda>x. x\<lparr> blazorKeypressListener := Some l \<rparr>)
                in Inr (addEventListener s4 el ''keypress'' l))
             else setAttribute s1 el (js_string nm) (js_string (attributeValue attributeFrame))))"

subsection \<open>Materializing frames\<close>

definition insertComponentMarker :: "state \<Rightarrow> int \<Rightarrow> nid option \<Rightarrow> int \<Rightarrow> error + state" where
  "insertComponentMarker s cid parent childIndex =
     (let (marker, s1) = createComment s ''blazor-component'' in
      case insertNodeIntoDOM s1 marker parent childIndex of
        Inl e \<Rightarrow> Inl e
      | Inr s2 \<Rightarrow> Inr (s2\<lparr> childComponentLocations := (childComponentLocations s2)(cid := Some marker) \<rparr>))"

definition insertComponent :: "state \<Rightarrow> nid option \<Rightarrow> int \<Rightarrow> frame \<Rightarrow> error + state" where
  "insertComponent s parent childIndex fr = insertComponentMarker s (componentId fr) parent childIndex"

definition insertText :: "state \<Rightarrow> nid option \<Rightarrow> int \<Rightarrow> frame \<Rightarrow> error + state" where
  "insertText s parent childIndex textFrame =
     (let (newDomTextNode, s1) = createTextNode s (js_string (textContent textFrame)) in
      insertNodeIntoDOM s1 newDomTextNode parent childIndex)"

definition attachComponentToElement :: "state \<Rightarrow> int \<Rightarrow> nid \<Rightarrow> error + state" where
  "attachComponentToElement s cid element = insertComponentMarker s cid (Some element) 0"

text \<open>
  The three mutually recursive methods.  The two \<^verbatim>\<open>for\<close> loops are the functions
  \<open>insertElement_loop\<close> (over \<^verbatim>\<open>descendantIndex\<close>) and \<open>insertFrameRange_loop\<close> (over
  \<^verbatim>\<open>index\<close>, carrying \<^verbatim>\<open>childIndex\<close>, which it returns when the loop ends).
\<close>

function insertFrame :: "state \<Rightarrow> int \<Rightarrow> nid option \<Rightarrow> int \<Rightarrow> frame list \<Rightarrow> frame \<Rightarrow> nat \<Rightarrow> error + (int \<times> state)"
  and insertElement :: "state \<Rightarrow> int \<Rightarrow> nid option \<Rightarrow> int \<Rightarrow> frame list \<Rightarrow> frame \<Rightarrow> nat \<Rightarrow> error + state"
  and insertElement_loop :: "state \<Rightarrow> int \<Rightarrow> nid \<Rightarrow> frame list \<Rightarrow> nat \<Rightarrow> nat \<Rightarrow> error + state"
  and insertFrameRange :: "state \<Rightarrow> int \<Rightarrow> nid option \<Rightarrow> int \<Rightarrow> frame list \<Rightarrow> nat \<Rightarrow> nat \<Rightarrow> error + (int \<times> state)"
  and insertFrameRange_loop :: "state \<Rightarrow> int \<Rightarrow> nid option \<Rightarrow> int \<Rightarrow> frame list \<Rightarrow> nat \<Rightarrow> nat \<Rightarrow> error + (int \<times> state)"
where
  "insertFrame s cid parent childIndex frames fr frameIndex =
     (case frameType fr of
        FT_element \<Rightarrow>
          (case insertElement s cid parent childIndex frames fr frameIndex of
             Inl e \<Rightarrow> Inl e
           | Inr s' \<Rightarrow> Inr (1, s'))
      | FT_text \<Rightarrow>
          (case insertText s parent childIndex fr of
             Inl e \<Rightarrow> Inl e
           | Inr s' \<Rightarrow> Inr (1, s'))
      | FT_attribute \<Rightarrow> Inl MisplacedAttributeFrame
      | FT_component \<Rightarrow>
          (case insertComponent s parent childIndex fr of
             Inl e \<Rightarrow> Inl e
           | Inr s' \<Rightarrow> Inr (1, s'))
      | FT_region \<Rightarrow>
          insertFrameRange s cid parent childIndex frames (frameIndex + 1)
            (frameIndex + subtreeLength fr))"
| "insertElement s cid parent childIndex frames fr frameIndex =
     (let (newDomElement, s1) = createElement s (js_string (elementName fr)) in
      case insertNodeIntoDOM s1 newDomElement parent childIndex of
        Inl e \<Rightarrow> Inl e
      | Inr s2 \<Rightarrow>
          insertElement_loop s2 cid newDomElement frames (frameIndex + 1)
            (frameIndex + subtreeLength fr))"
| "insertElement_loop s cid newDomElement frames descendantIndex descendantsEndIndexExcl =
     (if descendantIndex < descendantsEndIndexExcl then
        (case getTreeFramePtr frames descendantIndex of
           Inl e \<Rightarrow> Inl e
         | Inr descendantFrame \<Rightarrow>
             if frameType descendantFrame = FT_attribute then
               (case applyAttribute s cid (Some newDomElement) descendantFrame of
                  Inl e \<Rightarrow> Inl e
                | Inr s' \<Rightarrow>
                    insertElement_loop s' cid newDomElement frames (descendantIndex + 1)
                      descendantsEndIndexExcl)
             else
               (case insertFrameRange s cid (Some newDomElement) 0 frames descendantIndex
                       descendantsEndIndexExcl of
                  Inl e \<Rightarrow> Inl e
                | Inr (n, s') \<Rightarrow> Inr s'))
      else Inr s)"
| "insertFrameRange s cid parent childIndex frames startIndex endIndexExcl =
     (case insertFrameRange_loop s cid parent childIndex frames startIndex endIndexExcl of
        Inl e \<Rightarrow> Inl e
      | Inr (childIndex', s') \<Rightarrow> Inr (childIndex' - childIndex, s'))"
| "insertFrameRange_loop s cid parent childIndex frames index endIndexExcl =
     (if index < endIndexExcl then
        (case getTreeFramePtr frames index of
           Inl e \<Rightarrow> Inl e
         | Inr fr \<Rightarrow>
             (case insertFrame s cid parent childIndex frames fr index of
                Inl e \<Rightarrow> Inl e
              | Inr (numChildrenInserted, s') \<Rightarrow>
                  insertFrameRange_loop s' cid parent (childIndex + numChildrenInserted) frames
                    ((if subtreeLength fr > 1 then index + (subtreeLength fr - 1) else index) + 1)
                    endIndexExcl))
      else Inr (childIndex, s))"
  by pat_completeness auto


termination
  by (relation "measure (\<lambda>x. case x of
          Inl (Inl (s, cid, parent, childIndex, frames, fr, i)) \<Rightarrow> 6 * (length frames - (i + 1)) + 5
        | Inl (Inr (s, cid, parent, childIndex, frames, fr, i)) \<Rightarrow> 6 * (length frames - (i + 1)) + 4
        | Inr (Inl (s, cid, el, frames, i, e)) \<Rightarrow> 6 * (length frames - i) + 3
        | Inr (Inr (Inl (s, cid, parent, childIndex, frames, i, e))) \<Rightarrow> 6 * (length frames - i) + 2
        | Inr (Inr (Inr (s, cid, parent, childIndex, frames, i, e))) \<Rightarrow> 6 * (length frames - i) + 1)")
     (auto simp: getTreeFramePtr_def split: if_splits)

declare insertFrame.simps [simp del] insertElement.simps [simp del]
  insertElement_loop.simps [simp del] insertFrameRange.simps [simp del]
  insertFrameRange_loop.simps [simp del]

subsection \<open>The edit-script walk\<close>

text \<open>
  The local variables of \<^verbatim>\<open>applyEdits\<close> that change while the loop runs, together with
  the state.  \<open>container\<close> is the variable \<^verbatim>\<open>parent\<close>; it is \<open>None\<close> once it has been
  assigned \<^verbatim>\<open>undefined\<close> or \<^verbatim>\<open>null\<close>, and the next use of it is a type error.
\<close>

record walk =
  container :: "nid option"
  currentDepth :: int
  childIndexAtCurrentDepth :: int
  topLevelNodeCountChange :: int
  st :: state

text \<open>One turn of the \<^verbatim>\<open>switch\<close> in the loop body.\<close>

fun applyEdit :: "int \<Rightarrow> int \<Rightarrow> frame list \<Rightarrow> walk \<Rightarrow> edit \<Rightarrow> error + walk" where
  "applyEdit cid childIndex referenceFrames w (PrependFrame siblingIndex frameIndex) =
     (case getTreeFramePtr referenceFrames frameIndex of
        Inl e \<Rightarrow> Inl e
      | Inr fr \<Rightarrow>
          (case insertFrame (st w) cid (container w) (childIndexAtCurrentDepth w + siblingIndex)
                  referenceFrames fr frameIndex of
             Inl e \<Rightarrow> Inl e
           | Inr (numNodesInserted, s') \<Rightarrow>
               Inr (w\<lparr> st := s',
                       topLevelNodeCountChange :=
                         (if currentDepth w = 0 then topLevelNodeCountChange w + numNodesInserted
                          else topLevelNodeCountChange w) \<rparr>)))"
| "applyEdit cid childIndex referenceFrames w (RemoveFrame siblingIndex) =
     (case removeNodeFromDOM (st w) (container w) (childIndexAtCurrentDepth w + siblingIndex) of
        Inl e \<Rightarrow> Inl e
      | Inr s' \<Rightarrow>
          Inr (w\<lparr> st := s',
                  topLevelNodeCountChange :=
                    (if currentDepth w = 0 then topLevelNodeCountChange w - 1
                     else topLevelNodeCountChange w) \<rparr>))"
| "applyEdit cid childIndex referenceFrames w (SetAttribute siblingIndex frameIndex) =
     (case getTreeFramePtr referenceFrames frameIndex of
        Inl e \<Rightarrow> Inl e
      | Inr fr \<Rightarrow>
          (case container w of
             None \<Rightarrow> Inl TypeError
           | Some p \<Rightarrow>
               (case applyAttribute (st w) cid
                       (child_at (childNodes (nodes (st w) p)) (childIndexAtCurrentDepth w + siblingIndex))
                       fr of
                  Inl e \<Rightarrow> Inl e
                | Inr s' \<Rightarrow> Inr (w\<lparr> st := s' \<rparr>))))"
| "applyEdit cid childIndex referenceFrames w (RemoveAttribute siblingIndex removedAttributeName) =
     (case removeAttributeFromDOM (st w) (container w) (childIndexAtCurrentDepth w + siblingIndex)
             (js_string removedAttributeName) of
        Inl e \<Rightarrow> Inl e
      | Inr s' \<Rightarrow> Inr (w\<lparr> st := s' \<rparr>))"
| "applyEdit cid childIndex referenceFrames w (UpdateText siblingIndex frameIndex) =
     (case getTreeFramePtr referenceFrames frameIndex of
        Inl e \<Rightarrow> Inl e
      | Inr fr \<Rightarrow>
          (case container w of
             None \<Rightarrow> Inl TypeError
           | Some p \<Rightarrow>
               (case child_at (childNodes (nodes (st w) p)) (childIndexAtCurrentDepth w + siblingIndex) of
                  None \<Rightarrow> Inl TypeError
                | Some domTextNode \<Rightarrow>
                    (case set_textContent (st w) domTextNode (textContent fr) of
                       Inl e \<Rightarrow> Inl e
                     | Inr s' \<Rightarrow> Inr (w\<lparr> st := s' \<rparr>)))))"
| "applyEdit cid childIndex referenceFrames w (StepIn siblingIndex) =
     (case container w of
        None \<Rightarrow> Inl TypeError
      | Some p \<Rightarrow>
          Inr (w\<lparr> container := child_at (childNodes (nodes (st w) p)) (childIndexAtCurrentDepth w + siblingIndex),
                  currentDepth := currentDepth w + 1,
                  childIndexAtCurrentDepth := 0 \<rparr>))"
| "applyEdit cid childIndex referenceFrames w StepOut =
     (case container w of
        None \<Rightarrow> Inl TypeError
      | Some p \<Rightarrow>
          Inr (w\<lparr> container := parentElement (st w) p,
                  currentDepth := currentDepth w - 1,
                  childIndexAtCurrentDepth := (if currentDepth w - 1 = 0 then childIndex else 0) \<rparr>))"

text \<open>The \<^verbatim>\<open>for\<close> loop over \<^verbatim>\<open>editIndex\<close>.\<close>

function applyEdits_loop :: "int \<Rightarrow> int \<Rightarrow> edit list \<Rightarrow> frame list \<Rightarrow> nat \<Rightarrow> nat \<Rightarrow> walk \<Rightarrow> error + walk" where
  "applyEdits_loop cid childIndex edits referenceFrames editIndex maxEditIndexExcl w =
     (if editIndex < maxEditIndexExcl then
        (case getRenderTreeEditPtr edits editIndex of
           Inl e \<Rightarrow> Inl e
         | Inr ed \<Rightarrow>
             (case applyEdit cid childIndex referenceFrames w ed of
                Inl e \<Rightarrow> Inl e
              | Inr w' \<Rightarrow>
                  applyEdits_loop cid childIndex edits referenceFrames (editIndex + 1)
                    maxEditIndexExcl w'))
      else Inr w)"
  by pat_completeness auto
termination
  by (relation "measure (\<lambda>(cid, childIndex, edits, referenceFrames, editIndex, maxEditIndexExcl, w).
                           maxEditIndexExcl - editIndex)") auto

declare applyEdits_loop.simps [simp del]

definition walk_start :: "state \<Rightarrow> nid option \<Rightarrow> int \<Rightarrow> walk" where
  "walk_start s parent childIndex =
     \<lparr> container = parent, currentDepth = 0, childIndexAtCurrentDepth = childIndex,
       topLevelNodeCountChange = 0, st = s \<rparr>"

definition applyEdits :: "state \<Rightarrow> int \<Rightarrow> nid option \<Rightarrow> int \<Rightarrow> edit list \<Rightarrow> nat \<Rightarrow> nat \<Rightarrow> frame list \<Rightarrow> error + (int \<times> state)" where
  "applyEdits s cid parent childIndex edits editsOffset editsLength referenceFrames =
     (case applyEdits_loop cid childIndex edits referenceFrames editsOffset
             (editsOffset + editsLength) (walk_start s parent childIndex) of
        Inl e \<Rightarrow> Inl e
      | Inr w \<Rightarrow> Inr (topLevelNodeCountChange w, st w))"

subsection \<open>Updating and disposing of a component\<close>

text \<open>
  Lines 24 to 42 of \<^verbatim>\<open>updateComponent\<close>: from the registered node to
  \<^verbatim>\<open>parent\<close>, \<^verbatim>\<open>childIndex\<close>, \<^verbatim>\<open>nodeCount\<close> and \<^verbatim>\<open>isWrapped\<close>.  A \<^verbatim>\<open>parentElement\<close> of
  \<^verbatim>\<open>null\<close> makes the next line (\<^verbatim>\<open>parent.childNodes\<close>) a type error.
\<close>

definition locate :: "state \<Rightarrow> nid \<Rightarrow> error + (nid \<times> int \<times> int \<times> bool \<times> state)" where
  "locate s marker =
     (if nodeType (nodes s marker) = CommentNode then
        (case parentElement s marker of
           None \<Rightarrow> Inl TypeError
         | Some parent \<Rightarrow>
             (case removeChild s parent (Some marker) of
                Inl e \<Rightarrow> Inl e
              | Inr s' \<Rightarrow> Inr (parent, indexOf (childNodes (nodes s parent)) marker, 0, False, s')))
      else if nodeType (nodes s marker) = ElementNode \<and> tagName s marker = Some ''BLAZOR-COMPONENT'' then
        Inr (marker, 0, int (length (childNodes (nodes s marker))), True, s)
      else
        (case parentElement s marker of
           None \<Rightarrow> Inl TypeError
         | Some parent \<Rightarrow> Inr (parent, indexOf (childNodes (nodes s parent)) marker, 1, False, s)))"

text \<open>The \<^verbatim>\<open>for\<close> loop that moves the component's nodes into the new wrapper.\<close>

function wrap_loop :: "state \<Rightarrow> nid \<Rightarrow> nid \<Rightarrow> int \<Rightarrow> int \<Rightarrow> int \<Rightarrow> error + state" where
  "wrap_loop s wrapper parent childIndex i nodeCount =
     (if i < nodeCount then
        (case appendChild s wrapper (child_at (childNodes (nodes s parent)) (childIndex + 1)) of
           Inl e \<Rightarrow> Inl e
         | Inr s' \<Rightarrow> wrap_loop s' wrapper parent childIndex (i + 1) nodeCount)
      else Inr s)"
  by pat_completeness auto
termination
  by (relation "measure (\<lambda>(s, wrapper, parent, childIndex, i, nodeCount). nat (nodeCount - i))") auto

declare wrap_loop.simps [simp del]

definition updateComponent :: "state \<Rightarrow> int \<Rightarrow> edit list \<Rightarrow> nat \<Rightarrow> nat \<Rightarrow> frame list \<Rightarrow> error + state" where
  "updateComponent s cid edits editsOffset editsLength referenceFrames =
     (case childComponentLocations s cid of
        None \<Rightarrow> Inl UnknownComponent
      | Some marker \<Rightarrow>
          (case locate s marker of
             Inl e \<Rightarrow> Inl e
           | Inr (parent, childIndex, occupied, isWrapped, s0) \<Rightarrow>
               (case applyEdits s0 cid (Some parent) childIndex edits editsOffset editsLength
                       referenceFrames of
                  Inl e \<Rightarrow> Inl e
                | Inr (delta, s1) \<Rightarrow>
                    (let nodeCount = occupied + delta in
                     if \<not> isWrapped then
                       if nodeCount = 1 then
                         Inr (s1\<lparr> childComponentLocations :=
                                    (childComponentLocations s1)
                                      (cid := child_at (childNodes (nodes s1 parent)) childIndex) \<rparr>)
                       else
                         (let (wrapper, s2) = createElement s1 ''blazor-component'' in
                          case insertNodeIntoDOM s2 wrapper (Some parent) childIndex of
                            Inl e \<Rightarrow> Inl e
                          | Inr s3 \<Rightarrow>
                              (case wrap_loop s3 wrapper parent childIndex 0 nodeCount of
                                 Inl e \<Rightarrow> Inl e
                               | Inr s4 \<Rightarrow>
                                   Inr (s4\<lparr> childComponentLocations :=
                                              (childComponentLocations s4)(cid := Some wrapper) \<rparr>)))
                     else Inr s1))))"

text \<open>\<^verbatim>\<open>delete\<close> of a key never throws, whether the key is present or not.\<close>

definition disposeComponent :: "state \<Rightarrow> int \<Rightarrow> error + state" where
  "disposeComponent s cid =
     Inr (s\<lparr> childComponentLocations := (childComponentLocations s)(cid := None) \<rparr>)"

section \<open>Example documents\<close>

text \<open>
  Concrete stores and frames on which the properties below are exercised: a document
  holding one \<^verbatim>\<open><div>\<close> (node 0) with a renderer that has no component yet, and the
  same document with an \<^verbatim>\<open><input type="checkbox">\<close> (node 1) inside the \<^verbatim>\<open><div>\<close>.
\<close>

definition document0 :: state where
  "document0 =
     \<lparr> nodes = (\<lambda>_. blank ElementNode ''div'' []), nextNode = 1, nextListener = 0,
       childComponentLocations = (\<lambda>_. None), browserRendererId = 0 \<rparr>"


definition attribute_frame :: "string \<Rightarrow> string option \<Rightarrow> int \<Rightarrow> frame" where
  "attribute_frame nm v h =
     \<lparr> frameType = FT_attribute, subtreeLength = 0, elementName = None, textContent = None,
       attributeName = Some nm, attributeValue = v, attributeEventHandlerId = h, componentId = 0 \<rparr>"

definition region_frame :: "nat \<Rightarrow> frame" where
  "region_frame len =
     \<lparr> frameType = FT_region, subtreeLength = len, elementName = None, textContent = None,
       attributeName = None, attributeValue = None, attributeEventHandlerId = 0, componentId = 0 \<rparr>"

definition component_frame :: "int \<Rightarrow> frame" where
  "component_frame c =
     \<lparr> frameType = FT_component, subtreeLength = 0, elementName = None, textContent = None,
       attributeName = None, attributeValue = None, attributeEventHandlerId = 0, componentId = c \<rparr>"

definition element_frame :: "string \<Rightarrow> nat \<Rightarrow> frame" where
  "element_frame tag len =
     \<lparr> frameType = FT_element, subtreeLength = len, elementName = Some tag, textContent = None,
       attributeName = None, attributeValue = None, attributeEventHandlerId = 0, componentId = 0 \<rparr>"

text \<open>
  A document whose \<^verbatim>\<open><div>\<close> (node 0) holds one text node (node 1), which is the whole
  rendering of component 5, registered as a bare node.
\<close>

definition bare_document :: state where
  "bare_document =
     document0\<lparr> nodes := (nodes document0)
                  (0 := (blank ElementNode ''div'' [])\<lparr> childNodes := [1] \<rparr>,
                   1 := (blank TextNode [] ''a'')\<lparr> parentNode := Some 0 \<rparr>),
                nextNode := 2,
                childComponentLocations := (childComponentLocations document0)(5 := Some 1) \<rparr>"

section \<open>Notions used in the properties\<close>



definition list_document :: state where
  "list_document =
     document0\<lparr> nodes := (nodes document0)
                  (0 := (blank ElementNode ''div'' [])\<lparr> childNodes := [1, 2] \<rparr>,
                   1 := (blank TextNode [] ''x'')\<lparr> parentNode := Some 0 \<rparr>,
                   2 := (blank ElementNode ''ul'' [])\<lparr> parentNode := Some 0 \<rparr>),
                nextNode := 3 \<rparr>"

definition text_frame :: "string \<Rightarrow> frame" where
  "text_frame t =
     \<lparr> frameType = FT_text, subtreeLength = 0, elementName = None, textContent = Some t,
       attributeName = None, attributeValue = None, attributeEventHandlerId = 0, componentId = 0 \<rparr>"

text \<open>
  What an edit does to the depth of the cursor, and the condition on a sequence of edits
  that the cursor, starting at depth \<open>d\<close>, never leaves the component's top level
  upwards (no \<^verbatim>\<open>stepOut\<close> without a \<^verbatim>\<open>stepIn\<close> before it).
\<close>

fun depthChange :: "edit \<Rightarrow> int" where
  "depthChange (StepIn k) = 1"
| "depthChange StepOut = - 1"
| "depthChange e = 0"

fun never_above_top :: "int \<Rightarrow> edit list \<Rightarrow> bool" where
  "never_above_top d [] = True"
| "never_above_top d (e # es) = (0 \<le> d + depthChange e \<and> never_above_top (d + depthChange e) es)"

text \<open>
  The shape every DOM has: below the allocation mark, no node occurs twice in a child list
  or in its own, every child points back to its parent, and every node with a parent
  occurs among that parent's children.
\<close>

definition tree_ok :: "nat \<Rightarrow> (nid \<Rightarrow> nid option) \<Rightarrow> (nid \<Rightarrow> nid list) \<Rightarrow> bool" where
  "tree_ok N par kids \<longleftrightarrow>
     (\<forall>p < N.
        distinct (kids p) \<and>
        (\<forall>c \<in> set (kids p). c < N \<and> c \<noteq> p \<and> par c = Some p) \<and>
        (case par p of None \<Rightarrow> True | Some q \<Rightarrow> q < N \<and> p \<in> set (kids q)))"

definition dom_ok :: "state \<Rightarrow> bool" where
  "dom_ok s \<longleftrightarrow>
     tree_ok (nextNode s) (\<lambda>n. parentNode (nodes s n)) (\<lambda>n. childNodes (nodes s n))"

text \<open>
  Relations between the state before and after a part of the renderer has run, for a
  frame table \<open>frames\<close>.  \<open>binds frames c\<close>: some component frame of the table refers to
  component \<open>c\<close>.  \<open>evolves\<close>: the store is still a tree, nodes were only added, no old
  node changed its kind or name, and only components the table refers to were bound
  anew.  \<open>spliced\<close>: in addition, the only old node that changed is the container \<open>p\<close>,
  only in its child list, and (for an index that is not negative) the new child list is
  the old one with \<open>n\<close> new nodes put in at the index.  \<open>decorated\<close>: the only old node
  that changed is \<open>e\<close>, which kept its parent.
\<close>

definition binds :: "frame list \<Rightarrow> int \<Rightarrow> bool" where
  "binds frames c \<longleftrightarrow> (\<exists>f \<in> set frames. frameType f = FT_component \<and> componentId f = c)"

definition evolves :: "frame list \<Rightarrow> state \<Rightarrow> state \<Rightarrow> bool" where
  "evolves frames s s' \<longleftrightarrow>
     dom_ok s' \<and> nextNode s \<le> nextNode s' \<and>
     (\<forall>x < nextNode s. nodeType (nodes s' x) = nodeType (nodes s x) \<and>
                        localName (nodes s' x) = localName (nodes s x)) \<and>
     (\<forall>c. \<not> binds frames c \<longrightarrow> childComponentLocations s' c = childComponentLocations s c)"

definition spliced :: "frame list \<Rightarrow> state \<Rightarrow> state \<Rightarrow> nid \<Rightarrow> int \<Rightarrow> int \<Rightarrow> bool" where
  "spliced frames s s' p idx n \<longleftrightarrow>
     evolves frames s s' \<and> 0 \<le> n \<and>
     (\<forall>x < nextNode s. x \<noteq> p \<longrightarrow> nodes s' x = nodes s x) \<and>
     (\<exists>L. nodes s' p = (nodes s p)\<lparr> childNodes := L \<rparr>) \<and>
     (0 \<le> idx \<longrightarrow>
        (\<exists>new. childNodes (nodes s' p) =
                 take (nat idx) (childNodes (nodes s p)) @ new @ drop (nat idx) (childNodes (nodes s p)) \<and>
               int (length new) = n \<and> (\<forall>x \<in> set new. nextNode s \<le> x)))"

definition decorated :: "frame list \<Rightarrow> state \<Rightarrow> state \<Rightarrow> nid \<Rightarrow> bool" where
  "decorated frames s s' e \<longleftrightarrow>
     evolves frames s s' \<and>
     (\<forall>x < nextNode s. x \<noteq> e \<longrightarrow> nodes s' x = nodes s x) \<and>
     parentNode (nodes s' e) = parentNode (nodes s e)"

text \<open>
  The values the loop counter \<^verbatim>\<open>index\<close> of \<^verbatim>\<open>insertFrameRange\<close> takes, in order: the
  positions of the frame table that the scan visits at its own level.  The arithmetic is
  that of the loop; a position outside the table ends the list, as reading there ends the
  loop.
\<close>

function scan_indices :: "frame list \<Rightarrow> nat \<Rightarrow> nat \<Rightarrow> nat list" where
  "scan_indices frames index endIndexExcl =
     (if index < endIndexExcl then
        (case getTreeFramePtr frames index of
           Inl e \<Rightarrow> [index]
         | Inr fr \<Rightarrow>
             index #
             scan_indices frames
               ((if subtreeLength fr > 1 then index + (subtreeLength fr - 1) else index) + 1)
               endIndexExcl)
      else [])"
  by pat_completeness auto
termination
  by (relation "measure (\<lambda>(frames, index, endIndexExcl). endIndexExcl - index)") auto

declare scan_indices.simps [simp del]

text \<open>
  Materializing the frames at given positions one after the other, each by
  \<^verbatim>\<open>insertFrame\<close>, the child index moving on by what each call returns: what the spec
  says a range scan does with the frames it visits.
\<close>

fun insertFrames_at :: "state \<Rightarrow> int \<Rightarrow> nid option \<Rightarrow> int \<Rightarrow> frame list \<Rightarrow> nat list \<Rightarrow> error + (int \<times> state)" where
  "insertFrames_at s cid parent childIndex frames [] = Inr (childIndex, s)"
| "insertFrames_at s cid parent childIndex frames (i # is) =
     (case getTreeFramePtr frames i of
        Inl e \<Rightarrow> Inl e
      | Inr fr \<Rightarrow>
          (case insertFrame s cid parent childIndex frames fr i of
             Inl e \<Rightarrow> Inl e
           | Inr (n, s') \<Rightarrow> insertFrames_at s' cid parent (childIndex + n) frames is))"

text \<open>
  Applying a list of attribute frames to an element one after the other, and the leading
  attribute frames of a range of the frame table: the two notions in which the spec
  describes what \<^verbatim>\<open>insertElement\<close> does with an element's attributes.
\<close>

fun applyAttributes :: "state \<Rightarrow> int \<Rightarrow> nid \<Rightarrow> frame list \<Rightarrow> error + state" where
  "applyAttributes s cid el [] = Inr s"
| "applyAttributes s cid el (f # fs) =
     (case applyAttribute s cid (Some el) f of
        Inl e \<Rightarrow> Inl e
      | Inr s' \<Rightarrow> applyAttributes s' cid el fs)"

definition leading_attributes :: "frame list \<Rightarrow> nat \<Rightarrow> nat \<Rightarrow> frame list" where
  "leading_attributes frames startIndex endIndexExcl =
     takeWhile (\<lambda>f. frameType f = FT_attribute)
       (take (endIndexExcl - startIndex) (drop startIndex frames))"

section \<open>Properties\<close>

subsection \<open>The component registry\<close>

text \<open>
  C10.  \<^verbatim>\<open>disposeComponent\<close> changes the registry only: the entry of the given component
  is removed, every other entry is as before, and the store (every node of the live tree,
  with the component's rendered nodes, marker or wrapper) is untouched.
\<close>

theorem disposeComponent_only_unbinds:
  "case disposeComponent s cid of
     Inl e \<Rightarrow> False
   | Inr s' \<Rightarrow>
       childComponentLocations s' = (childComponentLocations s)(cid := None) \<and>
       nodes s' = nodes s \<and> nextNode s' = nextNode s \<and> nextListener s' = nextListener s \<and>
       browserRendererId s' = browserRendererId s"
  by (simp add: disposeComponent_def)

text \<open>
  C2.  For a component that is not bound in the registry, \<^verbatim>\<open>updateComponent\<close> throws
  (the error \<open>UnknownComponent\<close>).  \<^verbatim>\<open>disposeComponent\<close> does not: \<^verbatim>\<open>delete\<close> of an
  absent key succeeds, and the state is left as it was.
\<close>

theorem unbound_component:
  assumes "childComponentLocations s cid = None"
  shows "updateComponent s cid edits editsOffset editsLength referenceFrames = Inl UnknownComponent \<and>
         disposeComponent s cid = Inr s"
  using assms by (simp add: updateComponent_def disposeComponent_def fun_upd_idem)

theorem unbound_component_witness:
  "childComponentLocations document0 7 = None \<and>
   updateComponent document0 7 [] 0 0 [] = Inl UnknownComponent \<and>
   disposeComponent document0 7 = Inr document0"
proof -
  have h: "childComponentLocations document0 7 = None" by (simp add: document0_def)
  show ?thesis using h unbound_component [OF h, of "[]" 0 0 "[]"] by simp
qed

text \<open>The claim as the spec has it (both operations fail) is false for \<^verbatim>\<open>disposeComponent\<close>.\<close>

theorem disposeComponent_unbound_counterexample:
  "\<not> (childComponentLocations document0 7 = None \<longrightarrow>
      disposeComponent document0 7 = Inl UnknownComponent)"
  by (simp add: disposeComponent_def document0_def)

subsection \<open>Attributes\<close>









subsection \<open>Inserting a node\<close>

lemma takeWhile_neq_nth:
  "distinct xs \<Longrightarrow> i < length xs \<Longrightarrow> takeWhile (\<lambda>x. x \<noteq> xs ! i) xs = take i xs"
proof (induction xs arbitrary: i)
  case Nil
  then show ?case by simp
next
  case (Cons a xs)
  then show ?case by (cases i) auto
qed

lemma dropWhile_neq_nth:
  "distinct xs \<Longrightarrow> i < length xs \<Longrightarrow> dropWhile (\<lambda>x. x \<noteq> xs ! i) xs = drop i xs"
proof (induction xs arbitrary: i)
  case Nil
  then show ?case by simp
next
  case (Cons a xs)
  then show ?case by (cases i) auto
qed

lemma nodes_upd [simp]: "nodes (upd s n f) = (nodes s)(n := f (nodes s n))"
  by (simp add: upd_def)

lemma detach_orphan: "parentNode (nodes s c) = None \<Longrightarrow> detach s c = s"
  by (simp add: detach_def)

text \<open>
  C9.  \<^verbatim>\<open>insertNodeIntoDOM\<close> never fails on account of the position.  Let the parent be an
  element whose child list is in order (no node twice, every child pointing back to the
  parent), and the node a new one: no parent, no children, not the parent itself.  Then
  for every child index \<open>i \<ge> 0\<close> the call succeeds; the node is appended when \<open>i\<close> is at
  least the number \<open>n\<close> of children and put before the child at \<open>i\<close> otherwise, so that it
  sits at position \<open>min i n\<close> and the children before and after it keep their order.
\<close>

theorem insertNodeIntoDOM_position:
  assumes el: "nodeType (nodes s p) = ElementNode"
    and new: "parentNode (nodes s node) = None" "childNodes (nodes s node) = []" "node \<noteq> p"
    and ok: "distinct (childNodes (nodes s p))"
            "\<forall>c \<in> set (childNodes (nodes s p)). parentNode (nodes s c) = Some p"
    and i: "0 \<le> i"
  shows "\<exists>s'. insertNodeIntoDOM s node (Some p) i = Inr s' \<and>
           childNodes (nodes s' p) =
             take (nat i) (childNodes (nodes s p)) @ node # drop (nat i) (childNodes (nodes s p)) \<and>
           childNodes (nodes s' p) ! min (nat i) (length (childNodes (nodes s p))) = node \<and>
           parentNode (nodes s' node) = Some p"
proof -
  let ?cs = "childNodes (nodes s p)"
  have pos: "(take (nat i) ?cs @ node # drop (nat i) ?cs) ! min (nat i) (length ?cs) = node"
    by (simp add: nth_append min_def)
  show ?thesis
  proof (cases "i \<ge> int (length ?cs)")
    case True
    then show ?thesis
      using el new pos by (simp add: insertNodeIntoDOM_def appendChild_def detach_orphan)
  next
    case False
    with i have lt: "nat i < length ?cs" by simp
    then have "parentNode (nodes s (?cs ! nat i)) = Some p"
      using ok(2) by simp
    then show ?thesis
      using False i lt el new pos ok(1)
      by (simp add: insertNodeIntoDOM_def insertBefore_def child_at_def detach_orphan
            takeWhile_neq_nth dropWhile_neq_nth)
  qed
qed

text \<open>A new text node put at index 1 between the two children of the \<^verbatim>\<open><div>\<close>.\<close>

theorem insertNodeIntoDOM_position_witness:
  "\<exists>s'. insertNodeIntoDOM (snd (createTextNode list_document ''t'')) 3 (Some 0) 1 = Inr s' \<and>
        childNodes (nodes s' 0) = [1, 3, 2] \<and> parentNode (nodes s' 3) = Some 0"
proof -
  let ?s = "snd (createTextNode list_document ''t'')"
  note ev = createTextNode_def alloc_def list_document_def document0_def blank_def
  have cs: "childNodes (nodes ?s 0) = [1, 2]"
    by (simp add: ev)
  have "nodeType (nodes ?s 0) = ElementNode"
    by (simp add: ev)
  moreover have "parentNode (nodes ?s 3) = None" "childNodes (nodes ?s 3) = []"
    by (simp_all add: ev)
  moreover have "distinct (childNodes (nodes ?s 0))"
    by (simp add: cs)
  moreover have "\<forall>c \<in> set (childNodes (nodes ?s 0)). parentNode (nodes ?s c) = Some 0"
    by (simp add: ev)
  ultimately have "\<exists>s'. insertNodeIntoDOM ?s 3 (Some 0) 1 = Inr s' \<and>
           childNodes (nodes s' 0) =
             take (nat 1) (childNodes (nodes ?s 0)) @ 3 # drop (nat 1) (childNodes (nodes ?s 0)) \<and>
           childNodes (nodes s' 0) ! min (nat 1) (length (childNodes (nodes ?s 0))) = 3 \<and>
           parentNode (nodes s' 3) = Some 0"
    by (intro insertNodeIntoDOM_position) simp_all
  then show ?thesis by (auto simp: cs)
qed

subsection \<open>The cursor of the edit-script walk\<close>

lemma applyEdit_depth:
  "applyEdit cid childIndex frames w e = Inr w' \<Longrightarrow> currentDepth w' = currentDepth w + depthChange e"
  by (cases e) (auto split: sum.splits option.splits)

lemma applyEdit_top_index:
  assumes "applyEdit cid childIndex frames w e = Inr w'"
    and "0 \<le> currentDepth w" and "currentDepth w = 0 \<longrightarrow> childIndexAtCurrentDepth w = childIndex"
  shows "currentDepth w' = 0 \<longrightarrow> childIndexAtCurrentDepth w' = childIndex"
  using assms by (cases e) (auto split: sum.splits option.splits)

lemma applyEdits_loop_done:
  "\<not> a < b \<Longrightarrow> applyEdits_loop cid childIndex edits frames a b w = Inr w"
  by (subst applyEdits_loop.simps) simp

lemma applyEdits_loop_step:
  "a < b \<Longrightarrow>
   applyEdits_loop cid childIndex edits frames a b w =
     (case getRenderTreeEditPtr edits a of
        Inl e \<Rightarrow> Inl e
      | Inr ed \<Rightarrow>
          (case applyEdit cid childIndex frames w ed of
             Inl e \<Rightarrow> Inl e
           | Inr w' \<Rightarrow> applyEdits_loop cid childIndex edits frames (a + 1) b w'))"
  by (subst applyEdits_loop.simps) simp

lemma applyEdits_loop_snoc:
  "a \<le> b \<Longrightarrow>
   applyEdits_loop cid childIndex edits frames a (Suc b) w =
     (case applyEdits_loop cid childIndex edits frames a b w of
        Inl e \<Rightarrow> Inl e
      | Inr w' \<Rightarrow>
          (case getRenderTreeEditPtr edits b of
             Inl e \<Rightarrow> Inl e
           | Inr ed \<Rightarrow> applyEdit cid childIndex frames w' ed))"
proof (induction cid childIndex edits frames a b w rule: applyEdits_loop.induct)
  case (1 cid childIndex edits frames a b w)
  show ?case
  proof (cases "a < b")
    case True
    then have s: "a < Suc b" "a + 1 \<le> b" by simp_all
    show ?thesis
      unfolding applyEdits_loop_step [OF True] applyEdits_loop_step [OF s(1)]
      using 1(1) [OF True _ _ s(2)] by (simp split: sum.splits)
  next
    case False
    with 1(2) have ab: "a = b" by simp
    have "applyEdits_loop cid childIndex edits frames b (Suc b) w =
          (case getRenderTreeEditPtr edits b of Inl e \<Rightarrow> Inl e
           | Inr ed \<Rightarrow> applyEdit cid childIndex frames w ed)"
      by (simp add: applyEdits_loop_step applyEdits_loop_done split: sum.splits)
    then show ?thesis
      by (simp add: ab applyEdits_loop_done)
  qed
qed

lemma take_drop_step:
  "a < b \<Longrightarrow> a < length xs \<Longrightarrow>
   take (b - a) (drop a xs) = xs ! a # take (b - (a + 1)) (drop (a + 1) xs)"
proof -
  assume ab: "a < b" and al: "a < length xs"
  from al have "drop a xs = xs ! a # drop (Suc a) xs" by (rule Cons_nth_drop_Suc [symmetric])
  moreover from ab have "b - a = Suc (b - (a + 1))" by simp
  ultimately show ?thesis by simp
qed

lemma applyEdits_loop_top_index:
  assumes "applyEdits_loop cid childIndex edits frames a b w = Inr w'"
    and "a \<le> b"
    and "never_above_top (currentDepth w) (take (b - a) (drop a edits))"
    and "0 \<le> currentDepth w" and "currentDepth w = 0 \<longrightarrow> childIndexAtCurrentDepth w = childIndex"
  shows "currentDepth w' = 0 \<longrightarrow> childIndexAtCurrentDepth w' = childIndex"
  using assms
proof (induction cid childIndex edits frames a b w rule: applyEdits_loop.induct)
  case (1 cid childIndex edits frames a b w)
  show ?case
  proof (cases "a < b")
    case False
    with 1(2,6) show ?thesis by (simp add: applyEdits_loop_done)
  next
    case True
    from 1(2) obtain ed w1 where
      ed: "getRenderTreeEditPtr edits a = Inr ed"
      and st: "applyEdit cid childIndex frames w ed = Inr w1"
      and rest: "applyEdits_loop cid childIndex edits frames (a + 1) b w1 = Inr w'"
      unfolding applyEdits_loop_step [OF True] by (auto split: sum.splits)
    from ed have a: "a < length edits" and eda: "ed = edits ! a"
      by (auto simp: getRenderTreeEditPtr_def split: if_splits)
    have tk: "take (b - a) (drop a edits) = ed # take (b - (a + 1)) (drop (a + 1) edits)"
      unfolding eda using True a by (rule take_drop_step)
    have d1: "currentDepth w1 = currentDepth w + depthChange ed"
      using st by (rule applyEdit_depth)
    from 1(4) tk have n1: "never_above_top (currentDepth w1) (take (b - (a + 1)) (drop (a + 1) edits))"
      and p1: "0 \<le> currentDepth w1"
      by (simp_all add: d1)
    have t1: "currentDepth w1 = 0 \<longrightarrow> childIndexAtCurrentDepth w1 = childIndex"
      using st 1(5,6) by (rule applyEdit_top_index)
    from True have le: "a + 1 \<le> b" by simp
    show ?thesis
      by (rule 1(1) [OF True ed st rest le n1 p1 t1])
  qed
qed


text \<open>
  C3.  In the walk, \<^verbatim>\<open>stepIn\<close> makes the child at \<open>childIndexAtCurrentDepth + siblingIndex\<close>
  the container, adds one to the depth and sets the child index to 0; \<^verbatim>\<open>stepOut\<close> makes
  the parent element the container, takes one from the depth and sets the child index to
  the original start index if the depth is then 0, and to 0 otherwise.  Hence, in a walk
  that so far never stepped out above its top level: when a \<^verbatim>\<open>stepIn\<close> at position \<open>i\<close>
  is reached at depth 0 and a later \<^verbatim>\<open>stepOut\<close> at position \<open>j\<close> brings the depth back to
  0, the child index after it is the one before the pair (the start index), whatever the
  edits between them did.
\<close>

theorem stepIn_stepOut_cursor:
  "applyEdit cid childIndex frames w (StepIn k) =
     (case container w of
        None \<Rightarrow> Inl TypeError
      | Some p \<Rightarrow>
          Inr (w\<lparr> container := child_at (childNodes (nodes (st w) p)) (childIndexAtCurrentDepth w + k),
                  currentDepth := currentDepth w + 1,
                  childIndexAtCurrentDepth := 0 \<rparr>)) \<and>
   applyEdit cid childIndex frames w StepOut =
     (case container w of
        None \<Rightarrow> Inl TypeError
      | Some p \<Rightarrow>
          Inr (w\<lparr> container := parentElement (st w) p,
                  currentDepth := currentDepth w - 1,
                  childIndexAtCurrentDepth := (if currentDepth w - 1 = 0 then childIndex else 0) \<rparr>)) \<and>
   (off \<le> i \<and> i < j \<and>
    never_above_top 0 (take (i - off) (drop off edits)) \<and>
    applyEdits_loop cid childIndex edits frames off i (walk_start s parent childIndex) = Inr w1 \<and>
    currentDepth w1 = 0 \<and>
    getRenderTreeEditPtr edits i = Inr (StepIn k') \<and>
    getRenderTreeEditPtr edits j = Inr StepOut \<and>
    applyEdits_loop cid childIndex edits frames i (Suc j) w1 = Inr w2 \<and>
    currentDepth w2 = 0
    \<longrightarrow> childIndexAtCurrentDepth w2 = childIndexAtCurrentDepth w1 \<and>
        childIndexAtCurrentDepth w1 = childIndex)"
proof (intro conjI impI)
  assume h: "off \<le> i \<and> i < j \<and>
    never_above_top 0 (take (i - off) (drop off edits)) \<and>
    applyEdits_loop cid childIndex edits frames off i (walk_start s parent childIndex) = Inr w1 \<and>
    currentDepth w1 = 0 \<and>
    getRenderTreeEditPtr edits i = Inr (StepIn k') \<and>
    getRenderTreeEditPtr edits j = Inr StepOut \<and>
    applyEdits_loop cid childIndex edits frames i (Suc j) w1 = Inr w2 \<and>
    currentDepth w2 = 0"
  let ?w0 = "walk_start s parent childIndex"
  have "currentDepth w1 = 0 \<longrightarrow> childIndexAtCurrentDepth w1 = childIndex"
  proof (rule applyEdits_loop_top_index)
    show "applyEdits_loop cid childIndex edits frames off i ?w0 = Inr w1" using h by simp
    show "off \<le> i" using h by simp
    show "never_above_top (currentDepth ?w0) (take (i - off) (drop off edits))"
      using h by (simp add: walk_start_def)
    show "0 \<le> currentDepth ?w0" by (simp add: walk_start_def)
    show "currentDepth ?w0 = 0 \<longrightarrow> childIndexAtCurrentDepth ?w0 = childIndex"
      by (simp add: walk_start_def)
  qed
  with h show "childIndexAtCurrentDepth w1 = childIndex" by simp
  moreover
  from h have ij: "i \<le> j" by simp
  from h obtain w' where "applyEdit cid childIndex frames w' StepOut = Inr w2"
    unfolding applyEdits_loop_snoc [OF ij] by (auto split: sum.splits)
  with h have "childIndexAtCurrentDepth w2 = childIndex"
    by (auto split: option.splits)
  ultimately show "childIndexAtCurrentDepth w2 = childIndexAtCurrentDepth w1" by simp
qed simp_all

lemma walk_example:
  "\<exists>w. applyEdits_loop 5 1 [StepIn 0, PrependFrame 0 0, StepOut] [text_frame ''a''] 0 (Suc 2)
          (walk_start list_document (Some 0) 1) = Inr w \<and>
        currentDepth w = 0 \<and> childNodes (nodes (st w) 2) = [3]"
  by (simp add: applyEdits_loop_step applyEdits_loop_done getRenderTreeEditPtr_def
        getTreeFramePtr_def walk_start_def numeral_2_eq_2 list_document_def document0_def
        child_at_def blank_def parentElement_def text_frame_def insertFrame.simps insertText_def
        createTextNode_def alloc_def insertNodeIntoDOM_def appendChild_def detach_def upd_def
        js_string_def)

theorem stepIn_stepOut_cursor_witness:
  "\<exists>w2. applyEdits_loop 5 1 [StepIn 0, PrependFrame 0 0, StepOut] [text_frame ''a''] 0 (Suc 2)
           (walk_start list_document (Some 0) 1) = Inr w2 \<and>
         currentDepth w2 = 0 \<and> childNodes (nodes (st w2) 2) = [3] \<and>
         childIndexAtCurrentDepth w2 = 1"
proof -
  let ?E = "[StepIn 0, PrependFrame 0 0, StepOut]"
  let ?w1 = "walk_start list_document (Some 0) 1"
  from walk_example obtain w2 where
    r: "applyEdits_loop 5 1 ?E [text_frame ''a''] 0 (Suc 2) ?w1 = Inr w2"
    and d: "currentDepth w2 = 0" and c: "childNodes (nodes (st w2) 2) = [3]"
    by blast
  have h: "(0::nat) \<le> 0 \<and> (0::nat) < 2 \<and>
    never_above_top 0 (take (0 - 0) (drop 0 ?E)) \<and>
    applyEdits_loop 5 1 ?E [text_frame ''a''] 0 0 ?w1 = Inr ?w1 \<and>
    currentDepth ?w1 = 0 \<and>
    getRenderTreeEditPtr ?E 0 = Inr (StepIn 0) \<and>
    getRenderTreeEditPtr ?E 2 = Inr StepOut \<and>
    applyEdits_loop 5 1 ?E [text_frame ''a''] 0 (Suc 2) ?w1 = Inr w2 \<and>
    currentDepth w2 = 0"
    using r d by (simp add: applyEdits_loop_done getRenderTreeEditPtr_def walk_start_def)
  from stepIn_stepOut_cursor [of 5 1 "[text_frame ''a'']" ?w1 0 0 0 2 ?E list_document "Some 0" ?w1 0 w2] h
  have "childIndexAtCurrentDepth w2 = childIndexAtCurrentDepth ?w1" by blast
  then show ?thesis using r d c by (auto simp: walk_start_def)
qed

subsection \<open>The store stays a tree\<close>

lemma tree_okD_kids:
  "tree_ok N par kids \<Longrightarrow> p < N \<Longrightarrow> c \<in> set (kids p) \<Longrightarrow> c < N \<and> c \<noteq> p \<and> par c = Some p"
  by (simp add: tree_ok_def)

lemma tree_okD_distinct: "tree_ok N par kids \<Longrightarrow> p < N \<Longrightarrow> distinct (kids p)"
  by (simp add: tree_ok_def)

lemma tree_okD_par:
  assumes "tree_ok N par kids" and "c < N" and "par c = Some q"
  shows "q < N \<and> c \<in> set (kids q)"
proof -
  from assms(1,2) have "case par c of None \<Rightarrow> True | Some q \<Rightarrow> q < N \<and> c \<in> set (kids q)"
    by (simp add: tree_ok_def)
  with assms(3) show ?thesis by simp
qed

lemma tree_okI:
  assumes "\<And>p. p < N \<Longrightarrow> distinct (kids p)"
    and "\<And>p c. p < N \<Longrightarrow> c \<in> set (kids p) \<Longrightarrow> c < N \<and> c \<noteq> p \<and> par c = Some p"
    and "\<And>p q. p < N \<Longrightarrow> par p = Some q \<Longrightarrow> q < N \<and> p \<in> set (kids q)"
  shows "tree_ok N par kids"
  unfolding tree_ok_def
proof (intro allI impI conjI ballI)
  fix p assume p: "p < N"
  show "distinct (kids p)" using assms(1) [OF p] .
  show "case par p of None \<Rightarrow> True | Some q \<Rightarrow> q < N \<and> p \<in> set (kids q)"
    using assms(3) [OF p] by (cases "par p") simp_all
  fix c assume c: "c \<in> set (kids p)"
  show "c < N" "c \<noteq> p" "par c = Some p" using assms(2) [OF p c] by simp_all
qed

lemma in_set_splice: "x \<in> set (take k xs @ c # drop k xs) \<longleftrightarrow> x = c \<or> x \<in> set xs"
proof -
  have "set (take k xs) \<union> set (drop k xs) = set (take k xs @ drop k xs)"
    by (simp only: set_append)
  also have "\<dots> = set xs"
    by (simp only: append_take_drop_id)
  finally have "x \<in> set xs \<longleftrightarrow> x \<in> set (take k xs) \<or> x \<in> set (drop k xs)"
    by blast
  then show ?thesis by simp
qed

lemma tree_ok_detach:
  assumes ok: "tree_ok N par kids" and c: "c < N" and pc: "par c = Some p"
  shows "tree_ok N (par(c := None)) (kids(p := remove1 c (kids p)))"
proof (rule tree_okI)
  from tree_okD_par [OF ok c pc] have p: "p < N" and cp: "c \<in> set (kids p)" by simp_all
  from tree_okD_kids [OF ok p cp] have ne: "c \<noteq> p" by simp
  fix n assume n: "n < N"
  show "distinct ((kids(p := remove1 c (kids p))) n)"
    using tree_okD_distinct [OF ok n] by (cases "n = p") simp_all
  { fix x assume x: "x \<in> set ((kids(p := remove1 c (kids p))) n)"
    have d: "distinct (kids p)" using tree_okD_distinct [OF ok p] .
    have xin: "x \<in> set (kids n)"
    proof (cases "n = p")
      case True
      with x have "x \<in> set (remove1 c (kids p))" by simp
      then show ?thesis using True notin_set_remove1 [of x "kids p" c] by blast
    next
      case False
      with x show ?thesis by simp
    qed
    from tree_okD_kids [OF ok n xin] have k: "x < N" "x \<noteq> n" "par x = Some n" by simp_all
    have "x \<noteq> c"
    proof
      assume "x = c"
      with k pc have "n = p" by simp
      with x \<open>x = c\<close> d show False by simp
    qed
    with k show "x < N \<and> x \<noteq> n \<and> (par(c := None)) x = Some n" by simp }
  { fix q assume q: "(par(c := None)) n = Some q"
    then have nc: "n \<noteq> c" and pq: "par n = Some q" by (auto split: if_splits)
    from tree_okD_par [OF ok n pq] have "q < N" "n \<in> set (kids q)" by simp_all
    with nc show "q < N \<and> n \<in> set ((kids(p := remove1 c (kids p))) q)" by auto }
qed

lemma tree_ok_link:
  assumes ok: "tree_ok N par kids" and c: "c < N" and p: "p < N" and ne: "c \<noteq> p"
    and pc: "par c = None"
  shows "tree_ok N (par(c := Some p)) (kids(p := take k (kids p) @ c # drop k (kids p)))"
proof (rule tree_okI)
  have notin: "c \<notin> set (kids n)" if "n < N" for n
    using tree_okD_kids [OF ok that, of c] pc by auto
  fix n assume n: "n < N"
  show "distinct ((kids(p := take k (kids p) @ c # drop k (kids p))) n)"
  proof (cases "n = p")
    case True
    have d: "distinct (kids p)" using tree_okD_distinct [OF ok p] .
    then have "distinct (take k (kids p))" "distinct (drop k (kids p))"
      "set (take k (kids p)) \<inter> set (drop k (kids p)) = {}"
      by (simp_all add: set_take_disj_set_drop_if_distinct)
    moreover have "c \<notin> set (take k (kids p))" "c \<notin> set (drop k (kids p))"
      using notin [OF p] by (auto dest: in_set_takeD in_set_dropD)
    ultimately show ?thesis using True by auto
  next
    case False
    then show ?thesis using tree_okD_distinct [OF ok n] by simp
  qed
  { fix x assume x: "x \<in> set ((kids(p := take k (kids p) @ c # drop k (kids p))) n)"
    show "x < N \<and> x \<noteq> n \<and> (par(c := Some p)) x = Some n"
    proof (cases "x = c")
      case True
      with x notin [OF n] have "n = p" by (auto split: if_splits)
      with True c ne show ?thesis by simp
    next
      case False
      have "x \<in> set (kids n)"
      proof (cases "n = p")
        case True
        with x have "x \<in> set (take k (kids p) @ c # drop k (kids p))" by simp
        with False True show ?thesis unfolding in_set_splice by simp
      next
        case False
        with x show ?thesis by simp
      qed
      from tree_okD_kids [OF ok n this] False show ?thesis by simp
    qed }
  { fix q assume q: "(par(c := Some p)) n = Some q"
    show "q < N \<and> n \<in> set ((kids(p := take k (kids p) @ c # drop k (kids p))) q)"
    proof (cases "n = c")
      case True
      with q have "q = p" by simp
      moreover have "c \<in> set (take k (kids p) @ c # drop k (kids p))"
        unfolding in_set_splice by simp
      ultimately show ?thesis using True p by simp
    next
      case False
      with q have "par n = Some q" by simp
      from tree_okD_par [OF ok n this] have qn: "q < N" and nq: "n \<in> set (kids q)" by simp_all
      have "n \<in> set ((kids(p := take k (kids p) @ c # drop k (kids p))) q)"
      proof (cases "q = p")
        case True
        have "n \<in> set (take k (kids p) @ c # drop k (kids p))"
          unfolding in_set_splice using nq True by simp
        with True show ?thesis by simp
      next
        case False
        with nq show ?thesis by simp
      qed
      with qn show ?thesis by simp
    qed }
qed

lemma tree_ok_alloc:
  assumes ok: "tree_ok N par kids"
  shows "tree_ok (Suc N) (par(N := None)) (kids(N := []))"
proof (rule tree_okI)
  fix n assume n: "n < Suc N"
  show "distinct ((kids(N := [])) n)"
    using tree_okD_distinct [OF ok, of n] n by (cases "n = N") simp_all
  { fix x assume x: "x \<in> set ((kids(N := [])) n)"
    then have nN: "n \<noteq> N" and xin: "x \<in> set (kids n)" by (auto split: if_splits)
    with n have n': "n < N" by simp
    from tree_okD_kids [OF ok n' xin] show "x < Suc N \<and> x \<noteq> n \<and> (par(N := None)) x = Some n"
      by auto }
  { fix q assume q: "(par(N := None)) n = Some q"
    then have nN: "n \<noteq> N" and pq: "par n = Some q" by (auto split: if_splits)
    with n have n': "n < N" by simp
    from tree_okD_par [OF ok n' pq] show "q < Suc N \<and> n \<in> set ((kids(N := [])) q)"
      by auto }
qed

lemma tree_ok_clear:
  assumes ok: "tree_ok N par kids" and e: "e < N"
  shows "tree_ok N (\<lambda>x. if x \<in> set (kids e) then None else par x) (kids(e := []))"
proof (rule tree_okI)
  fix n assume n: "n < N"
  show "distinct ((kids(e := [])) n)"
    using tree_okD_distinct [OF ok n] by simp
  { fix x assume x: "x \<in> set ((kids(e := [])) n)"
    then have ne: "n \<noteq> e" and xin: "x \<in> set (kids n)" by (auto split: if_splits)
    from tree_okD_kids [OF ok n xin] have k: "x < N" "x \<noteq> n" "par x = Some n" by simp_all
    have "x \<notin> set (kids e)"
      using tree_okD_kids [OF ok e, of x] k ne by auto
    with k show "x < N \<and> x \<noteq> n \<and> (if x \<in> set (kids e) then None else par x) = Some n" by simp }
  { fix q assume q: "(if n \<in> set (kids e) then None else par n) = Some q"
    then have nin: "n \<notin> set (kids e)" and pq: "par n = Some q" by (auto split: if_splits)
    from tree_okD_par [OF ok n pq] have "q < N" "n \<in> set (kids q)" by simp_all
    with nin show "q < N \<and> n \<in> set ((kids(e := [])) q)" by auto }
qed

lemma nextNode_upd [simp]: "nextNode (upd s n f) = nextNode s"
  by (simp add: upd_def)

lemma locations_upd [simp]: "childComponentLocations (upd s n f) = childComponentLocations s"
  by (simp add: upd_def)

lemma nextNode_detach [simp]: "nextNode (detach s c) = nextNode s"
  by (simp add: detach_def split: option.splits)

lemma locations_detach [simp]: "childComponentLocations (detach s c) = childComponentLocations s"
  by (simp add: detach_def split: option.splits)

lemma dom_okD_kids:
  "dom_ok s \<Longrightarrow> p < nextNode s \<Longrightarrow> c \<in> set (childNodes (nodes s p)) \<Longrightarrow>
   c < nextNode s \<and> c \<noteq> p \<and> parentNode (nodes s c) = Some p"
  unfolding dom_ok_def by (drule (2) tree_okD_kids)

lemma dom_okD_distinct: "dom_ok s \<Longrightarrow> p < nextNode s \<Longrightarrow> distinct (childNodes (nodes s p))"
  unfolding dom_ok_def by (drule (1) tree_okD_distinct)

lemma dom_okD_par:
  "dom_ok s \<Longrightarrow> c < nextNode s \<Longrightarrow> parentNode (nodes s c) = Some q \<Longrightarrow>
   q < nextNode s \<and> c \<in> set (childNodes (nodes s q))"
  unfolding dom_ok_def by (drule (2) tree_okD_par)

text \<open>An update that leaves parent and children of the node alone.\<close>

lemma dom_ok_upd_same:
  assumes "dom_ok s"
    and "parentNode (f (nodes s n)) = parentNode (nodes s n)"
    and "childNodes (f (nodes s n)) = childNodes (nodes s n)"
  shows "dom_ok (upd s n f)"
proof -
  have "(\<lambda>x. parentNode (nodes (upd s n f) x)) = (\<lambda>x. parentNode (nodes s x))"
    using assms(2) by (auto simp: fun_eq_iff)
  moreover have "(\<lambda>x. childNodes (nodes (upd s n f) x)) = (\<lambda>x. childNodes (nodes s x))"
    using assms(3) by (auto simp: fun_eq_iff)
  ultimately show ?thesis using assms(1) by (simp add: dom_ok_def)
qed

lemma dom_ok_alloc:
  assumes "dom_ok s" and "parentNode n = None" and "childNodes n = []"
  shows "dom_ok (snd (alloc s n))"
proof -
  have "(\<lambda>x. parentNode (nodes (snd (alloc s n)) x)) = (\<lambda>x. parentNode (nodes s x))(nextNode s := None)"
    using assms(2) by (auto simp: fun_eq_iff alloc_def)
  moreover have "(\<lambda>x. childNodes (nodes (snd (alloc s n)) x)) = (\<lambda>x. childNodes (nodes s x))(nextNode s := [])"
    using assms(3) by (auto simp: fun_eq_iff alloc_def)
  moreover have "nextNode (snd (alloc s n)) = Suc (nextNode s)"
    by (simp add: alloc_def)
  ultimately show ?thesis
    using tree_ok_alloc [OF assms(1) [unfolded dom_ok_def]] by (simp add: dom_ok_def)
qed

lemma dom_ok_detach:
  assumes ok: "dom_ok s" and c: "c < nextNode s"
  shows "dom_ok (detach s c)"
proof (cases "parentNode (nodes s c)")
  case None
  then show ?thesis using ok by (simp add: detach_def)
next
  case (Some p)
  from dom_okD_par [OF ok c Some] have cp: "c \<in> set (childNodes (nodes s p))" and p: "p < nextNode s"
    by simp_all
  from dom_okD_kids [OF ok p cp] have ne: "c \<noteq> p" by simp
  have 1: "(\<lambda>x. parentNode (nodes (detach s c) x)) = (\<lambda>x. parentNode (nodes s x))(c := None)"
    using Some ne by (auto simp: fun_eq_iff detach_def)
  have 2: "(\<lambda>x. childNodes (nodes (detach s c) x)) =
           (\<lambda>x. childNodes (nodes s x))(p := remove1 c (childNodes (nodes s p)))"
    using Some ne by (auto simp: fun_eq_iff detach_def)
  show ?thesis
    unfolding dom_ok_def 1 2 nextNode_detach
    by (rule tree_ok_detach [OF ok [unfolded dom_ok_def] c Some])
qed

lemma detach_orphaned:
  "dom_ok s \<Longrightarrow> c < nextNode s \<Longrightarrow> parentNode (nodes (detach s c) c) = None"
  by (cases "parentNode (nodes s c)") (auto simp: detach_def)

text \<open>Hanging an orphan under a parent, at any place among the children.\<close>

lemma dom_ok_link:
  assumes ok: "dom_ok s" and p: "p < nextNode s" and c: "c < nextNode s" and ne: "c \<noteq> p"
    and orphan: "parentNode (nodes s c) = None"
    and L: "L = take k (childNodes (nodes s p)) @ c # drop k (childNodes (nodes s p))"
  shows "dom_ok (upd (upd s p (\<lambda>n. n\<lparr> childNodes := L \<rparr>)) c (\<lambda>n. n\<lparr> parentNode := Some p \<rparr>))"
proof -
  let ?s' = "upd (upd s p (\<lambda>n. n\<lparr> childNodes := L \<rparr>)) c (\<lambda>n. n\<lparr> parentNode := Some p \<rparr>)"
  have 1: "(\<lambda>x. parentNode (nodes ?s' x)) = (\<lambda>x. parentNode (nodes s x))(c := Some p)"
    using ne by (auto simp: fun_eq_iff)
  have 2: "(\<lambda>x. childNodes (nodes ?s' x)) = (\<lambda>x. childNodes (nodes s x))(p := L)"
    using ne by (auto simp: fun_eq_iff)
  have 3: "nextNode ?s' = nextNode s" by simp
  have "tree_ok (nextNode s) ((\<lambda>x. parentNode (nodes s x))(c := Some p))
          ((\<lambda>x. childNodes (nodes s x))(p := L))"
    unfolding L by (rule tree_ok_link [OF ok [unfolded dom_ok_def] c p ne orphan])
  then show ?thesis
    unfolding dom_ok_def 1 2 3 .
qed


lemma insertNodeIntoDOM_new:
  assumes ok: "dom_ok s" and p: "p < nextNode s" and c: "c < nextNode s" and ne: "c \<noteq> p"
    and orphan: "parentNode (nodes s c) = None"
    and r: "insertNodeIntoDOM s c (Some p) idx = Inr s'"
  shows "\<exists>k. (0 \<le> idx \<longrightarrow> k = nat idx) \<and>
           s' = upd (upd s p (\<lambda>n. n\<lparr> childNodes := take k (childNodes (nodes s p)) @ c #
                                                      drop k (childNodes (nodes s p)) \<rparr>))
                    c (\<lambda>n. n\<lparr> parentNode := Some p \<rparr>)"
proof -
  let ?cs = "childNodes (nodes s p)"
  have app: "appendChild s p (Some c) = Inr s' \<Longrightarrow>
        s' = upd (upd s p (\<lambda>n. n\<lparr> childNodes := take (length ?cs) ?cs @ c # drop (length ?cs) ?cs \<rparr>))
                 c (\<lambda>n. n\<lparr> parentNode := Some p \<rparr>)"
    using orphan by (auto simp: appendChild_def detach_orphan upd_def split: if_splits)
  show ?thesis
  proof (cases "idx \<ge> int (length ?cs)")
    case True
    with r have "appendChild s p (Some c) = Inr s'" by (simp add: insertNodeIntoDOM_def)
    from app [OF this] True show ?thesis
      by (intro exI [of _ "nat idx"]) simp
  next
    case False
    show ?thesis
    proof (cases "0 \<le> idx")
      case neg: False
      with r False have "appendChild s p (Some c) = Inr s'"
        by (simp add: insertNodeIntoDOM_def child_at_def insertBefore_def)
      from app [OF this] neg show ?thesis by (intro exI [of _ "length ?cs"]) simp
    next
      case True
      with False have lt: "nat idx < length ?cs" by simp
      have d: "distinct ?cs" using ok p by (rule dom_okD_distinct)
      from r False True lt orphan
      have "s' = upd (upd s p (\<lambda>n. n\<lparr> childNodes := take (nat idx) ?cs @ c # drop (nat idx) ?cs \<rparr>))
                 c (\<lambda>n. n\<lparr> parentNode := Some p \<rparr>)"
        by (auto simp: insertNodeIntoDOM_def child_at_def insertBefore_def detach_orphan upd_def
              takeWhile_neq_nth [OF d] dropWhile_neq_nth [OF d] split: if_splits)
      then show ?thesis by blast
    qed
  qed
qed

lemma evolves_refl: "dom_ok s \<Longrightarrow> evolves frames s s"
  by (simp add: evolves_def)

lemma evolvesD:
  assumes "evolves frames s s'"
  shows "dom_ok s'" and "nextNode s \<le> nextNode s'"
    and "\<And>x. x < nextNode s \<Longrightarrow> nodeType (nodes s' x) = nodeType (nodes s x)"
    and "\<And>x. x < nextNode s \<Longrightarrow> localName (nodes s' x) = localName (nodes s x)"
    and "\<And>c. \<not> binds frames c \<Longrightarrow> childComponentLocations s' c = childComponentLocations s c"
  using assms by (simp_all add: evolves_def)

lemma evolvesI:
  assumes "dom_ok s'" and "nextNode s \<le> nextNode s'"
    and "\<And>x. x < nextNode s \<Longrightarrow> nodeType (nodes s' x) = nodeType (nodes s x)"
    and "\<And>x. x < nextNode s \<Longrightarrow> localName (nodes s' x) = localName (nodes s x)"
    and "\<And>c. \<not> binds frames c \<Longrightarrow> childComponentLocations s' c = childComponentLocations s c"
  shows "evolves frames s s'"
  using assms by (simp add: evolves_def)

lemma evolves_trans:
  assumes a: "evolves frames s s1" and b: "evolves frames s1 s2"
  shows "evolves frames s s2"
proof (rule evolvesI)
  show "dom_ok s2" using b by (rule evolvesD)
  show "nextNode s \<le> nextNode s2" using evolvesD(2) [OF a] evolvesD(2) [OF b] by simp
  fix x assume "x < nextNode s"
  then have x: "x < nextNode s" and x1: "x < nextNode s1" using evolvesD(2) [OF a] by simp_all
  show "nodeType (nodes s2 x) = nodeType (nodes s x)"
    using evolvesD(3) [OF a x] evolvesD(3) [OF b x1] by simp
  show "localName (nodes s2 x) = localName (nodes s x)"
    using evolvesD(4) [OF a x] evolvesD(4) [OF b x1] by simp
next
  fix c assume "\<not> binds frames c"
  then show "childComponentLocations s2 c = childComponentLocations s c"
    using evolvesD(5) [OF a] evolvesD(5) [OF b] by simp
qed

lemma splicedD:
  assumes "spliced frames s s' p idx n"
  shows "evolves frames s s'" and "0 \<le> n"
    and "\<And>x. x < nextNode s \<Longrightarrow> x \<noteq> p \<Longrightarrow> nodes s' x = nodes s x"
    and "\<exists>L. nodes s' p = (nodes s p)\<lparr> childNodes := L \<rparr>"
    and "0 \<le> idx \<Longrightarrow>
           \<exists>new. childNodes (nodes s' p) =
                   take (nat idx) (childNodes (nodes s p)) @ new @ drop (nat idx) (childNodes (nodes s p)) \<and>
                 int (length new) = n \<and> (\<forall>x \<in> set new. nextNode s \<le> x)"
  using assms by (simp_all add: spliced_def)

lemma splicedI:
  assumes "evolves frames s s'" and "0 \<le> n"
    and "\<And>x. x < nextNode s \<Longrightarrow> x \<noteq> p \<Longrightarrow> nodes s' x = nodes s x"
    and "\<exists>L. nodes s' p = (nodes s p)\<lparr> childNodes := L \<rparr>"
    and "0 \<le> idx \<Longrightarrow>
           \<exists>new. childNodes (nodes s' p) =
                   take (nat idx) (childNodes (nodes s p)) @ new @ drop (nat idx) (childNodes (nodes s p)) \<and>
                 int (length new) = n \<and> (\<forall>x \<in> set new. nextNode s \<le> x)"
  shows "spliced frames s s' p idx n"
  using assms by (simp add: spliced_def)

lemma node_childNodes_same: "\<exists>L. n = n\<lparr> childNodes := L \<rparr>"
  by (rule exI [of _ "childNodes n"]) simp

lemma spliced_refl: "dom_ok s \<Longrightarrow> spliced frames s s p idx 0"
  by (rule splicedI) (simp_all add: evolves_refl node_childNodes_same)

lemma splice_twice:
  "take (k + length a) (take k cs @ a @ drop k cs) @ b @ drop (k + length a) (take k cs @ a @ drop k cs)
     = take k cs @ (a @ b) @ drop k cs"
proof (cases "k \<le> length cs")
  case True
  then show ?thesis by (simp add: min_def)
next
  case False
  then show ?thesis by simp
qed

lemma spliced_trans:
  assumes a: "spliced frames s s1 p idx n" and b: "spliced frames s1 s2 p (idx + n) m"
    and p: "p < nextNode s"
  shows "spliced frames s s2 p idx (n + m)"
proof (rule splicedI)
  note ea = splicedD(1) [OF a] and eb = splicedD(1) [OF b]
  show "evolves frames s s2" using ea eb by (rule evolves_trans)
  show "0 \<le> n + m" using splicedD(2) [OF a] splicedD(2) [OF b] by simp
  show "\<exists>L. nodes s2 p = (nodes s p)\<lparr> childNodes := L \<rparr>"
  proof -
    from splicedD(4) [OF a] obtain X where x: "nodes s1 p = (nodes s p)\<lparr> childNodes := X \<rparr>" ..
    from splicedD(4) [OF b] obtain Y where y: "nodes s2 p = (nodes s1 p)\<lparr> childNodes := Y \<rparr>" ..
    have "nodes s2 p = (nodes s p)\<lparr> childNodes := Y \<rparr>" unfolding y x by simp
    then show ?thesis ..
  qed
  { fix x assume x: "x < nextNode s" "x \<noteq> p"
    then have "x < nextNode s1" using evolvesD(2) [OF ea] by simp
    with x show "nodes s2 x = nodes s x"
      using splicedD(3) [OF a, of x] splicedD(3) [OF b, of x] by simp }
  { assume i: "0 \<le> idx"
    from splicedD(5) [OF a i] obtain new1 where
      c1: "childNodes (nodes s1 p) =
             take (nat idx) (childNodes (nodes s p)) @ new1 @ drop (nat idx) (childNodes (nodes s p))"
      and l1: "int (length new1) = n" and f1: "\<forall>x \<in> set new1. nextNode s \<le> x"
      by blast
    from i splicedD(2) [OF a] have "0 \<le> idx + n" by simp
    from splicedD(5) [OF b this] obtain new2 where
      c2: "childNodes (nodes s2 p) =
             take (nat (idx + n)) (childNodes (nodes s1 p)) @ new2 @
             drop (nat (idx + n)) (childNodes (nodes s1 p))"
      and l2: "int (length new2) = m" and f2: "\<forall>x \<in> set new2. nextNode s1 \<le> x"
      by blast
    from i l1 have k: "nat (idx + n) = nat idx + length new1" by simp
    have "childNodes (nodes s2 p) =
            take (nat idx) (childNodes (nodes s p)) @ (new1 @ new2) @
            drop (nat idx) (childNodes (nodes s p))"
      unfolding c2 c1 k by (rule splice_twice)
    moreover have "int (length (new1 @ new2)) = n + m" using l1 l2 by simp
    moreover have "\<forall>x \<in> set (new1 @ new2). nextNode s \<le> x"
      using f1 f2 evolvesD(2) [OF ea] by auto
    ultimately show "\<exists>new. childNodes (nodes s2 p) =
              take (nat idx) (childNodes (nodes s p)) @ new @ drop (nat idx) (childNodes (nodes s p)) \<and>
            int (length new) = n + m \<and> (\<forall>x \<in> set new. nextNode s \<le> x)"
      by blast }
qed


lemma dom_ok_same_shape:
  assumes "nextNode s' = nextNode s"
    and "\<And>x. parentNode (nodes s' x) = parentNode (nodes s x)"
    and "\<And>x. childNodes (nodes s' x) = childNodes (nodes s x)"
  shows "dom_ok s' = dom_ok s"
  using assms by (simp add: dom_ok_def)

lemma applyAttribute_shape:
  assumes "applyAttribute s cid (Some e) f = Inr s'"
  shows "nextNode s' = nextNode s" and "childComponentLocations s' = childComponentLocations s"
    and "\<And>x. x \<noteq> e \<Longrightarrow> nodes s' x = nodes s x"
    and "parentNode (nodes s' e) = parentNode (nodes s e)"
    and "childNodes (nodes s' e) = childNodes (nodes s e)"
    and "nodeType (nodes s' e) = nodeType (nodes s e)"
    and "localName (nodes s' e) = localName (nodes s e)"
  using assms
  by (auto simp: applyAttribute_def tryApplyValueProperty_def setAttribute_def
        removeEventListener_def newListener_def addEventListener_def upd_def Let_def
      split: if_splits option.splits prod.splits)


lemma decoratedD:
  assumes "decorated frames s s' e"
  shows "evolves frames s s'"
    and "\<And>x. x < nextNode s \<Longrightarrow> x \<noteq> e \<Longrightarrow> nodes s' x = nodes s x"
    and "parentNode (nodes s' e) = parentNode (nodes s e)"
  using assms by (simp_all add: decorated_def)

lemma decorated_refl: "dom_ok s \<Longrightarrow> decorated frames s s e"
  by (simp add: decorated_def evolves_refl)

lemma decorated_trans:
  assumes a: "decorated frames s s1 e" and b: "decorated frames s1 s2 e" and e: "e < nextNode s"
  shows "decorated frames s s2 e"
  unfolding decorated_def
proof (intro conjI allI impI)
  note ea = decoratedD(1) [OF a] and eb = decoratedD(1) [OF b]
  show "evolves frames s s2" using ea eb by (rule evolves_trans)
  show "parentNode (nodes s2 e) = parentNode (nodes s e)"
    using decoratedD(3) [OF a] decoratedD(3) [OF b] by simp
  fix x assume x: "x < nextNode s" "x \<noteq> e"
  then have "x < nextNode s1" using evolvesD(2) [OF ea] by simp
  with x show "nodes s2 x = nodes s x"
    using decoratedD(2) [OF a, of x] decoratedD(2) [OF b, of x] by simp
qed

lemma decorated_applyAttribute:
  assumes ok: "dom_ok s" and r: "applyAttribute s cid (Some e) f = Inr s'"
  shows "decorated frames s s' e"
proof -
  note sh = applyAttribute_shape [OF r]
  have same: "nodes s' x = nodes s x" if "x \<noteq> e" for x using sh(3) [OF that] .
  have par: "parentNode (nodes s' x) = parentNode (nodes s x)" for x
    using sh(4) same by (cases "x = e") simp_all
  have kid: "childNodes (nodes s' x) = childNodes (nodes s x)" for x
    using sh(5) same by (cases "x = e") simp_all
  have ty: "nodeType (nodes s' x) = nodeType (nodes s x)" for x
    using sh(6) same by (cases "x = e") simp_all
  have nm: "localName (nodes s' x) = localName (nodes s x)" for x
    using sh(7) same by (cases "x = e") simp_all
  have "dom_ok s'" using dom_ok_same_shape [OF sh(1) par kid] ok by simp
  then have "evolves frames s s'"
    by (rule evolvesI) (simp_all add: sh(1,2) ty nm)
  then show ?thesis
    by (simp add: decorated_def same sh(4))
qed

lemma spliced_decorated:
  assumes "spliced frames s s' e idx n"
  shows "decorated frames s s' e"
proof -
  from splicedD(4) [OF assms] obtain L where "nodes s' e = (nodes s e)\<lparr> childNodes := L \<rparr>" ..
  then have "parentNode (nodes s' e) = parentNode (nodes s e)" by simp
  then show ?thesis
    using splicedD(1,3) [OF assms] by (simp add: decorated_def)
qed

text \<open>A new node, created and put under \<open>p\<close>.\<close>

lemma spliced_insert_new:
  assumes ok: "dom_ok s" and p: "p < nextNode s"
    and n0: "parentNode n0 = None" "childNodes n0 = []"
    and r: "insertNodeIntoDOM (snd (alloc s n0)) (nextNode s) (Some p) idx = Inr s'"
  shows "spliced frames s s' p idx 1"
    and "nodes s' (nextNode s) = n0\<lparr> parentNode := Some p \<rparr>"
    and "nextNode s' = Suc (nextNode s)"
    and "childComponentLocations s' = childComponentLocations s"
    and "0 \<le> idx \<Longrightarrow>
         childNodes (nodes s' p) =
           take (nat idx) (childNodes (nodes s p)) @ nextNode s # drop (nat idx) (childNodes (nodes s p))"
proof -
  let ?c = "nextNode s"
  let ?s1 = "snd (alloc s n0)"
  let ?cs = "childNodes (nodes s p)"
  have ok1: "dom_ok ?s1" using ok n0 by (rule dom_ok_alloc)
  have s1: "nodes ?s1 = (nodes s)(?c := n0)" "nextNode ?s1 = Suc ?c"
    "childComponentLocations ?s1 = childComponentLocations s"
    by (simp_all add: alloc_def)
  from p have ne: "?c \<noteq> p" by simp
  have p1: "p < nextNode ?s1" and c1: "?c < nextNode ?s1" using p by (simp_all add: s1)
  have orphan: "parentNode (nodes ?s1 ?c) = None" by (simp add: s1 n0)
  from insertNodeIntoDOM_new [OF ok1 p1 c1 ne orphan r] obtain k where
    k: "0 \<le> idx \<longrightarrow> k = nat idx"
    and s': "s' = upd (upd ?s1 p (\<lambda>n. n\<lparr> childNodes := take k (childNodes (nodes ?s1 p)) @ ?c #
                                                      drop k (childNodes (nodes ?s1 p)) \<rparr>))
                    ?c (\<lambda>n. n\<lparr> parentNode := Some p \<rparr>)"
    by blast
  have cs1: "childNodes (nodes ?s1 p) = ?cs" using ne by (simp add: s1)
  have ok': "dom_ok s'"
    unfolding s' by (rule dom_ok_link [OF ok1 p1 c1 ne orphan refl])
  have np: "nodes s' p = (nodes s p)\<lparr> childNodes := take k ?cs @ ?c # drop k ?cs \<rparr>"
    using ne by (simp add: s' s1)
  have nx: "nodes s' x = nodes s x" if "x \<noteq> p" "x \<noteq> ?c" for x
    using that by (simp add: s' s1)
  show c: "nodes s' ?c = n0\<lparr> parentNode := Some p \<rparr>"
    using ne by (simp add: s' s1)
  show nn: "nextNode s' = Suc ?c" by (simp add: s' s1)
  show loc: "childComponentLocations s' = childComponentLocations s" by (simp add: s' s1)
  have ev: "evolves frames s s'"
  proof (rule evolvesI)
    fix x assume "x < nextNode s"
    then have "x \<noteq> ?c" by simp
    then show "nodeType (nodes s' x) = nodeType (nodes s x)"
      and "localName (nodes s' x) = localName (nodes s x)"
      using np nx [of x] by (cases "x = p"; simp)+
  qed (simp_all add: ok' nn loc)
  show "spliced frames s s' p idx 1"
  proof (rule splicedI [OF ev])
    show "\<exists>L. nodes s' p = (nodes s p)\<lparr> childNodes := L \<rparr>" using np by blast
    show "nodes s' x = nodes s x" if "x < nextNode s" "x \<noteq> p" for x
      using that nx [of x] by simp
    show "\<exists>new. childNodes (nodes s' p) = take (nat idx) ?cs @ new @ drop (nat idx) ?cs \<and>
            int (length new) = 1 \<and> (\<forall>x \<in> set new. nextNode s \<le> x)" if "0 \<le> idx"
      using that k np by (intro exI [of _ "[?c]"]) simp
  qed simp
  show "childNodes (nodes s' p) = take (nat idx) ?cs @ ?c # drop (nat idx) ?cs" if "0 \<le> idx"
    using that k np by simp
qed


lemma binds_member: "fr \<in> set frames \<Longrightarrow> frameType fr = FT_component \<Longrightarrow> binds frames (componentId fr)"
  by (auto simp: binds_def)

lemma spliced_insertText:
  assumes "dom_ok s" and "p < nextNode s" and "insertText s (Some p) idx fr = Inr s'"
  shows "spliced frames s s' p idx 1"
proof -
  from assms(3) have "insertNodeIntoDOM (snd (alloc s (blank TextNode [] (js_string (textContent fr)))))
                        (nextNode s) (Some p) idx = Inr s'"
    by (simp add: insertText_def createTextNode_def alloc_def)
  then show ?thesis
    by (intro spliced_insert_new(1) [OF assms(1,2)]) (simp_all add: blank_def)
qed

lemma spliced_relocated:
  assumes sp: "spliced frames s s' p idx n" and b: "binds frames c"
  shows "spliced frames s (s'\<lparr> childComponentLocations := (childComponentLocations s')(c := v) \<rparr>) p idx n"
proof -
  let ?t = "s'\<lparr> childComponentLocations := (childComponentLocations s')(c := v) \<rparr>"
  note ev = splicedD(1) [OF sp]
  have "dom_ok ?t" using evolvesD(1) [OF ev] by (simp add: dom_ok_def)
  then have "evolves frames s ?t"
    using evolvesD(2,3,4,5) [OF ev] b by (intro evolvesI) auto
  then show ?thesis
    using splicedD(2,3,4,5) [OF sp] by (intro splicedI) simp_all
qed

lemma spliced_insertComponent:
  assumes ok: "dom_ok s" and p: "p < nextNode s" and fr: "fr \<in> set frames" "frameType fr = FT_component"
    and r: "insertComponent s (Some p) idx fr = Inr s'"
  shows "spliced frames s s' p idx 1"
proof -
  from r obtain s2 where
    i: "insertNodeIntoDOM (snd (alloc s (blank CommentNode [] ''blazor-component''))) (nextNode s) (Some p) idx = Inr s2"
    and s': "s' = s2\<lparr> childComponentLocations := (childComponentLocations s2)(componentId fr := Some (nextNode s)) \<rparr>"
    by (auto simp: insertComponent_def insertComponentMarker_def createComment_def alloc_def
          split: sum.splits)
  have "spliced frames s s2 p idx 1"
    using i by (intro spliced_insert_new(1) [OF ok p]) (simp_all add: blank_def)
  then show ?thesis
    unfolding s' using binds_member [OF fr] by (rule spliced_relocated)
qed


lemma spliced_then_decorated:
  assumes sp: "spliced frames s s2 p idx n" and de: "decorated frames s2 s' e"
    and e: "nextNode s \<le> e" and p: "p < nextNode s"
  shows "spliced frames s s' p idx n"
proof (rule splicedI)
  note e1 = splicedD(1) [OF sp] and e2 = decoratedD(1) [OF de]
  have le: "nextNode s \<le> nextNode s2" using e1 by (rule evolvesD)
  show "evolves frames s s'" using e1 e2 by (rule evolves_trans)
  show "0 \<le> n" using sp by (rule splicedD)
  have old: "nodes s' x = nodes s2 x" if "x < nextNode s" for x
    using that e le by (intro decoratedD(2) [OF de]) simp_all
  show "nodes s' x = nodes s x" if "x < nextNode s" "x \<noteq> p" for x
    using old [OF that(1)] splicedD(3) [OF sp that] by simp
  show "\<exists>L. nodes s' p = (nodes s p)\<lparr> childNodes := L \<rparr>"
    using old [OF p] splicedD(4) [OF sp] by simp
  show "\<exists>new. childNodes (nodes s' p) =
            take (nat idx) (childNodes (nodes s p)) @ new @ drop (nat idx) (childNodes (nodes s p)) \<and>
          int (length new) = n \<and> (\<forall>x \<in> set new. nextNode s \<le> x)" if "0 \<le> idx"
    using old [OF p] splicedD(5) [OF sp that] by simp
qed

lemma insert_family_spliced:
  shows "dom_ok s \<Longrightarrow> parent = Some p \<Longrightarrow> p < nextNode s \<Longrightarrow> fr \<in> set frames \<Longrightarrow>
         insertFrame s cid parent childIndex frames fr frameIndex = Inr (n, s') \<Longrightarrow>
         spliced frames s s' p childIndex n"
    and "dom_ok s \<Longrightarrow> parent = Some p \<Longrightarrow> p < nextNode s \<Longrightarrow>
         insertElement s cid parent childIndex frames fr frameIndex = Inr s' \<Longrightarrow>
         spliced frames s s' p childIndex 1"
    and "dom_ok s \<Longrightarrow> newDomElement < nextNode s \<Longrightarrow>
         insertElement_loop s cid newDomElement frames descendantIndex descendantsEndIndexExcl = Inr s' \<Longrightarrow>
         decorated frames s s' newDomElement"
    and "dom_ok s \<Longrightarrow> parent = Some p \<Longrightarrow> p < nextNode s \<Longrightarrow>
         insertFrameRange s cid parent childIndex frames startIndex endIndexExcl = Inr (n, s') \<Longrightarrow>
         spliced frames s s' p childIndex n"
    and "dom_ok s \<Longrightarrow> parent = Some p \<Longrightarrow> p < nextNode s \<Longrightarrow>
         insertFrameRange_loop s cid parent childIndex frames index endIndexExcl = Inr (c, s') \<Longrightarrow>
         spliced frames s s' p childIndex (c - childIndex)"
proof (induction s cid parent childIndex frames fr frameIndex
         and s cid parent childIndex frames fr frameIndex
         and s cid newDomElement frames descendantIndex descendantsEndIndexExcl
         and s cid parent childIndex frames startIndex endIndexExcl
         and s cid parent childIndex frames index endIndexExcl
       arbitrary: p n s' and p s' and s' and p n s' and p c s'
       rule: insertFrame_insertElement_insertElement_loop_insertFrameRange_insertFrameRange_loop.induct)
  case (1 s cid parent childIndex frames fr frameIndex)
  note r = "1.prems"(5) [unfolded insertFrame.simps [of s cid parent childIndex frames fr frameIndex]]
  note pre = "1.prems"(1,2,3)
  show ?case
  proof (cases "frameType fr")
    case FT_element
    with r have "insertElement s cid parent childIndex frames fr frameIndex = Inr s'" and "n = 1"
      by (auto split: sum.splits)
    with "1.IH"(1) [OF FT_element pre] show ?thesis by simp
  next
    case FT_text
    with r have "insertText s (Some p) childIndex fr = Inr s'" and "n = 1"
      using pre(2) by (auto split: sum.splits)
    with spliced_insertText [OF pre(1,3)] show ?thesis by simp
  next
    case FT_attribute
    with r show ?thesis by simp
  next
    case FT_component
    with r have "insertComponent s (Some p) childIndex fr = Inr s'" and "n = 1"
      using pre(2) by (auto split: sum.splits)
    with spliced_insertComponent [OF pre(1,3) "1.prems"(4) FT_component] show ?thesis by simp
  next
    case FT_region
    with r have "insertFrameRange s cid parent childIndex frames (frameIndex + 1)
                   (frameIndex + subtreeLength fr) = Inr (n, s')"
      by simp
    with "1.IH"(2) [OF FT_region pre] show ?thesis by simp
  qed
next
  case (2 s cid parent childIndex frames fr frameIndex)
  let ?n0 = "blank ElementNode (map to_lower (js_string (elementName fr))) []"
  let ?e = "nextNode s"
  let ?s1 = "snd (alloc s ?n0)"
  have ce: "createElement s (js_string (elementName fr)) = (?e, ?s1)"
    by (simp add: createElement_def alloc_def)
  from "2.prems"(4) obtain s2 where
    i: "insertNodeIntoDOM ?s1 ?e parent childIndex = Inr s2"
    and l: "insertElement_loop s2 cid ?e frames (frameIndex + 1) (frameIndex + subtreeLength fr) = Inr s'"
    unfolding insertElement.simps [of s cid parent childIndex frames fr frameIndex] ce
    by (auto split: sum.splits)
  from i have i': "insertNodeIntoDOM ?s1 ?e (Some p) childIndex = Inr s2"
    using "2.prems"(2) by simp
  have sp: "spliced frames s s2 p childIndex 1" and nn: "nextNode s2 = Suc ?e"
    using i' by (intro spliced_insert_new [OF "2.prems"(1,3)]; simp add: blank_def)+
  have ok2: "dom_ok s2" using splicedD(1) [OF sp] by (rule evolvesD)
  have "decorated frames s2 s' ?e"
    by (rule "2.IH" [OF ce [symmetric] refl i ok2 _ l]) (simp add: nn)
  with sp show ?case
    by (rule spliced_then_decorated) (simp_all add: "2.prems"(3))
next
  case (3 s cid newDomElement frames descendantIndex descendantsEndIndexExcl)
  note r = "3.prems"(3) [unfolded insertElement_loop.simps
             [of s cid newDomElement frames descendantIndex descendantsEndIndexExcl]]
  show ?case
  proof (cases "descendantIndex < descendantsEndIndexExcl")
    case False
    with r have "s' = s" by simp
    then show ?thesis using "3.prems"(1) by (simp add: decorated_refl)
  next
    case True
    with r obtain b where b: "getTreeFramePtr frames descendantIndex = Inr b"
      by (auto split: sum.splits)
    show ?thesis
    proof (cases "frameType b = FT_attribute")
      case att: True
      with r True b obtain s1 where
        a: "applyAttribute s cid (Some newDomElement) b = Inr s1"
        and l: "insertElement_loop s1 cid newDomElement frames (descendantIndex + 1)
                  descendantsEndIndexExcl = Inr s'"
        by (auto split: sum.splits)
      have d1: "decorated frames s s1 newDomElement"
        using "3.prems"(1) a by (rule decorated_applyAttribute)
      have ok1: "dom_ok s1" using decoratedD(1) [OF d1] by (rule evolvesD)
      have e1: "newDomElement < nextNode s1"
        using "3.prems"(2) evolvesD(2) [OF decoratedD(1) [OF d1]] by simp
      have "decorated frames s1 s' newDomElement"
        by (rule "3.IH"(1) [OF True b att a ok1 e1 l])
      with d1 show ?thesis using "3.prems"(2) by (rule decorated_trans)
    next
      case False
      with r True b obtain n where
        "insertFrameRange s cid (Some newDomElement) 0 frames descendantIndex
           descendantsEndIndexExcl = Inr (n, s')"
        by (auto split: sum.splits)
      from "3.IH"(2) [OF True b False "3.prems"(1) refl "3.prems"(2) this]
      show ?thesis by (rule spliced_decorated)
    qed
  qed
next
  case (4 s cid parent childIndex frames startIndex endIndexExcl)
  from "4.prems"(4) obtain c where
    l: "insertFrameRange_loop s cid parent childIndex frames startIndex endIndexExcl = Inr (c, s')"
    and n: "n = c - childIndex"
    unfolding insertFrameRange.simps [of s cid parent childIndex frames startIndex endIndexExcl]
    by (auto split: sum.splits)
  from "4.IH" [OF "4.prems"(1,2,3) l] show ?case by (simp add: n)
next
  case (5 s cid parent childIndex frames index endIndexExcl)
  note r = "5.prems"(4) [unfolded insertFrameRange_loop.simps
             [of s cid parent childIndex frames index endIndexExcl]]
  show ?case
  proof (cases "index < endIndexExcl")
    case False
    with r have "s' = s" "c = childIndex" by simp_all
    then show ?thesis using "5.prems"(1) by (simp add: spliced_refl)
  next
    case True
    with r obtain b n1 s1 where b: "getTreeFramePtr frames index = Inr b"
      and f: "insertFrame s cid parent childIndex frames b index = Inr (n1, s1)"
      and l: "insertFrameRange_loop s1 cid parent (childIndex + n1) frames
                ((if 1 < subtreeLength b then index + (subtreeLength b - 1) else index) + 1)
                endIndexExcl = Inr (c, s')"
      by (auto split: sum.splits)
    from b have mem: "b \<in> set frames"
      by (auto simp: getTreeFramePtr_def split: if_splits)
    have sp1: "spliced frames s s1 p childIndex n1"
      by (rule "5.IH"(1) [OF True b "5.prems"(1,2,3) mem f])
    have ok1: "dom_ok s1" using splicedD(1) [OF sp1] by (rule evolvesD)
    have p1: "p < nextNode s1"
      using "5.prems"(3) evolvesD(2) [OF splicedD(1) [OF sp1]] by simp
    have "spliced frames s1 s' p (childIndex + n1) (c - (childIndex + n1))"
      by (rule "5.IH"(2) [OF True b f refl ok1 "5.prems"(2) p1 l])
    with sp1 have "spliced frames s s' p childIndex (n1 + (c - (childIndex + n1)))"
      using "5.prems"(3) by (rule spliced_trans)
    then show ?thesis by simp
  qed
qed

subsection \<open>Regions\<close>

lemma dom_ok_document0: "dom_ok document0"
  by (simp add: dom_ok_def tree_ok_def document0_def blank_def)

text \<open>
  C4.  A region frame gets no node of its own.  \<^verbatim>\<open>insertFrame\<close> on a region frame is
  \<^verbatim>\<open>insertFrameRange\<close> on the frames after it, up to its subtree length, at the same
  container and index.  When it succeeds (in a tree-shaped store, for a container that
  exists and an index that is not negative), the container's child list is the old one
  with the new nodes put in at the index, one after the other; they are nodes created by
  the call, children of the container; the number returned is how many they are; and no
  other node that existed before has changed.
\<close>

theorem region_has_no_node:
  assumes reg: "frameType fr = FT_region"
    and ok: "dom_ok s" and p: "p < nextNode s" and i: "0 \<le> childIndex"
    and r: "insertFrame s cid (Some p) childIndex frames fr frameIndex = Inr (n, s')"
  shows "insertFrameRange s cid (Some p) childIndex frames (frameIndex + 1)
           (frameIndex + subtreeLength fr) = Inr (n, s') \<and>
         (\<exists>new. childNodes (nodes s' p) =
                  take (nat childIndex) (childNodes (nodes s p)) @ new @
                  drop (nat childIndex) (childNodes (nodes s p)) \<and>
                int (length new) = n \<and>
                (\<forall>x \<in> set new. nextNode s \<le> x \<and> x < nextNode s' \<and>
                                 parentNode (nodes s' x) = Some p)) \<and>
         (\<forall>x < nextNode s. x \<noteq> p \<longrightarrow> nodes s' x = nodes s x)"
proof -
  from r reg have rg: "insertFrameRange s cid (Some p) childIndex frames (frameIndex + 1)
           (frameIndex + subtreeLength fr) = Inr (n, s')"
    by (simp add: insertFrame.simps)
  have sp: "spliced frames s s' p childIndex n"
    using ok refl p rg by (rule insert_family_spliced(4))
  note ev = splicedD(1) [OF sp]
  have ok': "dom_ok s'" using ev by (rule evolvesD)
  have p': "p < nextNode s'" using p evolvesD(2) [OF ev] by simp
  from splicedD(5) [OF sp i] obtain new where
    c: "childNodes (nodes s' p) =
          take (nat childIndex) (childNodes (nodes s p)) @ new @
          drop (nat childIndex) (childNodes (nodes s p))"
    and l: "int (length new) = n" and f: "\<forall>x \<in> set new. nextNode s \<le> x"
    by blast
  have "x < nextNode s' \<and> parentNode (nodes s' x) = Some p" if "x \<in> set new" for x
  proof -
    from that have "x \<in> set (childNodes (nodes s' p))" by (simp add: c)
    from dom_okD_kids [OF ok' p' this] show ?thesis by simp
  qed
  with c l f have "\<exists>new. childNodes (nodes s' p) =
                  take (nat childIndex) (childNodes (nodes s p)) @ new @
                  drop (nat childIndex) (childNodes (nodes s p)) \<and>
                int (length new) = n \<and>
                (\<forall>x \<in> set new. nextNode s \<le> x \<and> x < nextNode s' \<and>
                                 parentNode (nodes s' x) = Some p)"
    by blast
  moreover have "\<forall>x < nextNode s. x \<noteq> p \<longrightarrow> nodes s' x = nodes s x"
    using splicedD(3) [OF sp] by simp
  ultimately show ?thesis using rg by simp
qed

text \<open>The spec's example: a region of two text frames, materialized at index 0.\<close>

lemma region_example:
  "\<exists>s'. insertFrame document0 1 (Some 0) 0 [region_frame 3, text_frame ''a'', text_frame ''b'']
           (region_frame 3) 0 = Inr (2, s') \<and>
        childNodes (nodes s' 0) = [1, 2] \<and> nextNode s' = 3 \<and>
        nodeType (nodes s' 1) = TextNode \<and> data (nodes s' 1) = ''a'' \<and>
        nodeType (nodes s' 2) = TextNode \<and> data (nodes s' 2) = ''b''"
  by (simp add: insertFrame.simps insertFrameRange.simps insertFrameRange_loop.simps
        region_frame_def text_frame_def getTreeFramePtr_def insertText_def createTextNode_def
        alloc_def insertNodeIntoDOM_def appendChild_def detach_def upd_def js_string_def
        document0_def blank_def child_at_def insertBefore_def)


theorem region_has_no_node_witness:
  "frameType (region_frame 3) = FT_region \<and> dom_ok document0 \<and>
   (\<exists>s'. insertFrame document0 1 (Some 0) 0 [region_frame 3, text_frame ''a'', text_frame ''b'']
            (region_frame 3) 0 = Inr (2, s') \<and>
         childNodes (nodes s' 0) = [1, 2] \<and> nextNode s' = 3 \<and>
         nodeType (nodes s' 1) = TextNode \<and> data (nodes s' 1) = ''a'' \<and>
         nodeType (nodes s' 2) = TextNode \<and> data (nodes s' 2) = ''b'' \<and>
         parentNode (nodes s' 1) = Some 0 \<and> parentNode (nodes s' 2) = Some 0 \<and>
         insertFrameRange document0 1 (Some 0) 0 [region_frame 3, text_frame ''a'', text_frame ''b'']
           1 3 = Inr (2, s'))"
proof -
  let ?F = "[region_frame 3, text_frame ''a'', text_frame ''b'']"
  have reg: "frameType (region_frame 3) = FT_region" by (simp add: region_frame_def)
  have p: "0 < nextNode document0" by (simp add: document0_def)
  from region_example obtain s' where
    r: "insertFrame document0 1 (Some 0) 0 ?F (region_frame 3) 0 = Inr (2, s')"
    and c: "childNodes (nodes s' 0) = [1, 2]" and n: "nextNode s' = 3"
    and d: "nodeType (nodes s' 1) = TextNode" "data (nodes s' 1) = ''a''"
           "nodeType (nodes s' 2) = TextNode" "data (nodes s' 2) = ''b''"
    by blast
  from region_has_no_node [OF reg dom_ok_document0 p order_refl r]
  have rg: "insertFrameRange document0 1 (Some 0) 0 ?F (0 + 1) (0 + subtreeLength (region_frame 3)) = Inr (2, s')"
    and new: "\<exists>new. childNodes (nodes s' 0) =
                  take (nat 0) (childNodes (nodes document0 0)) @ new @
                  drop (nat 0) (childNodes (nodes document0 0)) \<and>
                int (length new) = 2 \<and>
                (\<forall>x \<in> set new. nextNode document0 \<le> x \<and> x < nextNode s' \<and>
                                 parentNode (nodes s' x) = Some 0)"
    by simp_all
  from new c have "parentNode (nodes s' 1) = Some 0 \<and> parentNode (nodes s' 2) = Some 0"
    by (auto simp: document0_def blank_def)
  moreover from rg have "insertFrameRange document0 1 (Some 0) 0 ?F 1 3 = Inr (2, s')"
    by (simp add: region_frame_def)
  ultimately show ?thesis
    using reg dom_ok_document0 r c n d by blast
qed

subsection \<open>The range scan\<close>

lemma scan_indices_done: "\<not> i < e \<Longrightarrow> scan_indices frames i e = []"
  by (subst scan_indices.simps) simp

lemma scan_indices_outside: "i < e \<Longrightarrow> \<not> i < length frames \<Longrightarrow> scan_indices frames i e = [i]"
  by (subst scan_indices.simps) (simp add: getTreeFramePtr_def)

lemma scan_indices_step:
  "i < e \<Longrightarrow> i < length frames \<Longrightarrow>
   scan_indices frames i e = i # scan_indices frames (i + max 1 (subtreeLength (frames ! i))) e"
proof -
  assume a: "i < e" "i < length frames"
  have "(if 1 < subtreeLength (frames ! i) then i + (subtreeLength (frames ! i) - 1) else i) + 1
          = i + max 1 (subtreeLength (frames ! i))"
    by (simp add: max_def)
  with a show ?thesis
    by (subst scan_indices.simps) (simp add: getTreeFramePtr_def)
qed

lemma scan_indices_bounds: "j \<in> set (scan_indices frames i e) \<Longrightarrow> i \<le> j \<and> j < e"
proof (induction frames i e rule: scan_indices.induct)
  case (1 frames index endIndexExcl)
  show ?case
  proof (cases "index < endIndexExcl")
    case False
    with 1(2) show ?thesis by (simp add: scan_indices_done)
  next
    case True
    show ?thesis
    proof (cases "index < length frames")
      case False
      with 1(2) True show ?thesis by (simp add: scan_indices_outside)
    next
      case lt: True
      then have g: "getTreeFramePtr frames index = Inr (frames ! index)"
        by (simp add: getTreeFramePtr_def)
      from 1(2) have "j = index \<or> j \<in> set (scan_indices frames
             ((if 1 < subtreeLength (frames ! index) then index + (subtreeLength (frames ! index) - 1)
               else index) + 1) endIndexExcl)"
        by (subst (asm) scan_indices.simps) (simp add: True g)
      then show ?thesis
      proof
        assume "j = index" with True show ?thesis by simp
      next
        assume "j \<in> set (scan_indices frames
             ((if 1 < subtreeLength (frames ! index) then index + (subtreeLength (frames ! index) - 1)
               else index) + 1) endIndexExcl)"
        from 1(1) [OF True g this] show ?thesis by (simp split: if_splits)
      qed
    qed
  qed
qed

lemma scan_indices_sorted: "sorted_wrt (<) (scan_indices frames i e)"
proof (induction frames i e rule: scan_indices.induct)
  case (1 frames index endIndexExcl)
  show ?case
  proof (cases "index < endIndexExcl \<and> index < length frames")
    case False
    then show ?thesis
      by (cases "index < endIndexExcl") (simp_all add: scan_indices_done scan_indices_outside)
  next
    case True
    then have g: "getTreeFramePtr frames index = Inr (frames ! index)"
      by (simp add: getTreeFramePtr_def)
    let ?next = "(if 1 < subtreeLength (frames ! index) then index + (subtreeLength (frames ! index) - 1)
               else index) + 1"
    have eq: "scan_indices frames index endIndexExcl = index # scan_indices frames ?next endIndexExcl"
      using True by (subst scan_indices.simps) (simp add: g)
    have "index < j" if "j \<in> set (scan_indices frames ?next endIndexExcl)" for j
      using scan_indices_bounds [OF that] by (simp split: if_splits)
    with 1 [OF conjunct1 [OF True] g] show ?thesis
      unfolding eq by simp
  qed
qed

lemma scan_indices_skips:
  assumes "i \<in> set (scan_indices frames a e)" and "j \<in> set (scan_indices frames a e)"
    and "i < length frames"
  shows "\<not> (i < j \<and> j < i + subtreeLength (frames ! i))"
  using assms
proof (induction frames a e rule: scan_indices.induct)
  case (1 frames index endIndexExcl)
  show ?case
  proof (cases "index < endIndexExcl \<and> index < length frames")
    case False
    with 1(2,3) show ?thesis
      by (cases "index < endIndexExcl") (simp_all add: scan_indices_done scan_indices_outside)
  next
    case True
    then have g: "getTreeFramePtr frames index = Inr (frames ! index)"
      by (simp add: getTreeFramePtr_def)
    let ?next = "(if 1 < subtreeLength (frames ! index) then index + (subtreeLength (frames ! index) - 1)
               else index) + 1"
    have eq: "scan_indices frames index endIndexExcl = index # scan_indices frames ?next endIndexExcl"
      using True by (subst scan_indices.simps) (simp add: g)
    note IH = 1(1) [OF conjunct1 [OF True] g]
    have later: "?next \<le> k" if "k \<in> set (scan_indices frames ?next endIndexExcl)" for k
      using scan_indices_bounds [OF that] by simp
    show ?thesis
    proof (cases "i = index")
      case True
      show ?thesis
      proof (cases "j = index")
        case True
        with \<open>i = index\<close> show ?thesis by simp
      next
        case False
        with 1(3) have "j \<in> set (scan_indices frames ?next endIndexExcl)" by (simp add: eq)
        from later [OF this] True show ?thesis by (simp split: if_splits)
      qed
    next
      case False
      with 1(2) have i': "i \<in> set (scan_indices frames ?next endIndexExcl)" by (simp add: eq)
      show ?thesis
      proof (cases "j = index")
        case True
        with later [OF i'] show ?thesis by (simp split: if_splits)
      next
        case False
        with 1(3) have "j \<in> set (scan_indices frames ?next endIndexExcl)" by (simp add: eq)
        from IH [OF i' this 1(4)] show ?thesis .
      qed
    qed
  qed
qed

lemma insertFrameRange_loop_scan:
  "insertFrameRange_loop s cid parent childIndex frames index endIndexExcl =
     insertFrames_at s cid parent childIndex frames (scan_indices frames index endIndexExcl)"
proof (induction frames index endIndexExcl arbitrary: s childIndex rule: scan_indices.induct)
  case (1 frames index endIndexExcl)
  show ?case
  proof (cases "index < endIndexExcl")
    case False
    then show ?thesis
      by (simp add: scan_indices_done insertFrameRange_loop.simps)
  next
    case True
    show ?thesis
    proof (cases "getTreeFramePtr frames index")
      case (Inl e)
      with True show ?thesis
        by (subst insertFrameRange_loop.simps, subst scan_indices.simps) simp
    next
      case (Inr fr)
      show ?thesis
      proof (cases "1 < subtreeLength fr")
        case big: True
        from 1 [OF True Inr] big
        have IH: "insertFrameRange_loop s cid parent childIndex frames (index + subtreeLength fr)
                    endIndexExcl =
                  insertFrames_at s cid parent childIndex frames
                    (scan_indices frames (index + subtreeLength fr) endIndexExcl)" for s childIndex
          by simp
        show ?thesis
          using True Inr big
          by (subst insertFrameRange_loop.simps, subst scan_indices.simps)
             (simp add: IH split: sum.splits prod.splits)
      next
        case small: False
        from 1 [OF True Inr] small
        have IH: "insertFrameRange_loop s cid parent childIndex frames (Suc index) endIndexExcl =
                  insertFrames_at s cid parent childIndex frames
                    (scan_indices frames (Suc index) endIndexExcl)" for s childIndex
          by simp
        show ?thesis
          using True Inr small
          by (subst insertFrameRange_loop.simps, subst scan_indices.simps)
             (simp add: IH split: sum.splits prod.splits)
      qed
    qed
  qed
qed


text \<open>
  C8.  Materializing a range is one linear scan.  \<^verbatim>\<open>insertFrameRange\<close> does what
  materializing, in order, the frames at the positions \<open>scan_indices\<close> does.  After a
  frame the position moves on by the frame's \<^verbatim>\<open>subtreeLength\<close> when that is greater
  than one and by one otherwise (a frame without descendants may carry 0 or 1); so the
  positions increase strictly (no frame is visited twice at this level) and no position
  inside the subtree of a visited frame is visited at this level: those frames are left to
  the recursive call.  No record of visited frames is kept or needed.
\<close>

theorem range_scan_positions:
  "insertFrameRange s cid parent childIndex frames startIndex endIndexExcl =
     (case insertFrames_at s cid parent childIndex frames
             (scan_indices frames startIndex endIndexExcl) of
        Inl e \<Rightarrow> Inl e
      | Inr (childIndex', s') \<Rightarrow> Inr (childIndex' - childIndex, s')) \<and>
   scan_indices frames startIndex endIndexExcl =
     (if startIndex < endIndexExcl then
        startIndex #
        (if startIndex < length frames
         then scan_indices frames (startIndex + max 1 (subtreeLength (frames ! startIndex)))
                endIndexExcl
         else [])
      else []) \<and>
   sorted_wrt (<) (scan_indices frames startIndex endIndexExcl) \<and>
   (\<forall>i \<in> set (scan_indices frames startIndex endIndexExcl).
      \<forall>j \<in> set (scan_indices frames startIndex endIndexExcl).
        i < length frames \<longrightarrow> \<not> (i < j \<and> j < i + subtreeLength (frames ! i)))"
proof (intro conjI ballI impI)
  show "insertFrameRange s cid parent childIndex frames startIndex endIndexExcl =
     (case insertFrames_at s cid parent childIndex frames
             (scan_indices frames startIndex endIndexExcl) of
        Inl e \<Rightarrow> Inl e
      | Inr (childIndex', s') \<Rightarrow> Inr (childIndex' - childIndex, s'))"
    by (simp add: insertFrameRange.simps insertFrameRange_loop_scan)
  show "scan_indices frames startIndex endIndexExcl =
     (if startIndex < endIndexExcl then
        startIndex #
        (if startIndex < length frames
         then scan_indices frames (startIndex + max 1 (subtreeLength (frames ! startIndex)))
                endIndexExcl
         else [])
      else [])"
    by (simp add: scan_indices_done scan_indices_outside scan_indices_step)
  show "sorted_wrt (<) (scan_indices frames startIndex endIndexExcl)"
    by (rule scan_indices_sorted)
  fix i j
  assume "i \<in> set (scan_indices frames startIndex endIndexExcl)"
    and "j \<in> set (scan_indices frames startIndex endIndexExcl)" and "i < length frames"
  then show "\<not> (i < j \<and> j < i + subtreeLength (frames ! i))"
    by (rule scan_indices_skips)
qed

lemma scan_example:
  "scan_indices [region_frame 3, text_frame ''a'', text_frame ''b'', text_frame ''c''] 0 4 = [0, 3]"
  by (simp add: scan_indices.simps getTreeFramePtr_def region_frame_def text_frame_def)

theorem range_scan_positions_witness:
  "0 \<in> set (scan_indices [region_frame 3, text_frame ''a'', text_frame ''b'', text_frame ''c''] 0 4) \<and>
   subtreeLength ([region_frame 3, text_frame ''a'', text_frame ''b'', text_frame ''c''] ! 0) = 3 \<and>
   1 \<notin> set (scan_indices [region_frame 3, text_frame ''a'', text_frame ''b'', text_frame ''c''] 0 4) \<and>
   2 \<notin> set (scan_indices [region_frame 3, text_frame ''a'', text_frame ''b'', text_frame ''c''] 0 4) \<and>
   3 \<in> set (scan_indices [region_frame 3, text_frame ''a'', text_frame ''b'', text_frame ''c''] 0 4)"
proof -
  let ?F = "[region_frame 3, text_frame ''a'', text_frame ''b'', text_frame ''c'']"
  have sl: "subtreeLength (?F ! 0) = 3" by (simp add: region_frame_def)
  have in0: "0 \<in> set (scan_indices ?F 0 4)" and in3: "3 \<in> set (scan_indices ?F 0 4)"
    by (simp_all add: scan_example)
  from range_scan_positions [of document0 1 "Some 0" 0 ?F 0 4]
  have "\<forall>i \<in> set (scan_indices ?F 0 4). \<forall>j \<in> set (scan_indices ?F 0 4).
          i < length ?F \<longrightarrow> \<not> (i < j \<and> j < i + subtreeLength (?F ! i))"
    by blast
  with in0 have "\<forall>j \<in> set (scan_indices ?F 0 4). \<not> (0 < j \<and> j < 0 + subtreeLength (?F ! 0))"
    by fastforce
  then have "\<forall>j \<in> set (scan_indices ?F 0 4). \<not> (0 < j \<and> j < 3)"
    by (simp only: sl add_0)
  then have "1 \<notin> set (scan_indices ?F 0 4)" "2 \<notin> set (scan_indices ?F 0 4)"
    by auto
  with in0 in3 sl show ?thesis by blast
qed

text \<open>
  The claim as the spec has it (the position always moves on by the frame's
  \<^verbatim>\<open>subtreeLength\<close>) fails for frames that carry 0: after the first of two such text
  frames the scan goes on at position 1, not at 0 again.
\<close>

theorem range_scan_step_counterexample:
  "scan_indices [text_frame ''a'', text_frame ''b''] 0 2 \<noteq>
     0 # scan_indices [text_frame ''a'', text_frame ''b'']
           (0 + subtreeLength ([text_frame ''a'', text_frame ''b''] ! 0)) 2 \<and>
   insertFrameRange_loop document0 1 (Some 0) 0 [text_frame ''a'', text_frame ''b''] 0 2 \<noteq>
     (case insertFrame document0 1 (Some 0) 0 [text_frame ''a'', text_frame ''b'']
             ([text_frame ''a'', text_frame ''b''] ! 0) 0 of
        Inl e \<Rightarrow> Inl e
      | Inr (n, s') \<Rightarrow>
          insertFrameRange_loop s' 1 (Some 0) (0 + n) [text_frame ''a'', text_frame ''b'']
            (0 + subtreeLength ([text_frame ''a'', text_frame ''b''] ! 0)) 2)"
  by (simp add: scan_indices.simps getTreeFramePtr_def text_frame_def
        insertFrame.simps insertFrameRange_loop.simps insertText_def createTextNode_def
        alloc_def insertNodeIntoDOM_def appendChild_def detach_def upd_def js_string_def
        document0_def blank_def child_at_def insertBefore_def)

subsection \<open>Elements\<close>

lemma insertFrameRange_empty:
  "\<not> a < b \<Longrightarrow> insertFrameRange s cid parent childIndex frames a b = Inr (0, s)"
  by (simp add: insertFrameRange.simps insertFrameRange_loop.simps)

lemma insertFrameRange_outside:
  "a < b \<Longrightarrow> \<not> a < length frames \<Longrightarrow>
   insertFrameRange s cid parent childIndex frames a b = Inl BadPointer"
  by (simp add: insertFrameRange.simps insertFrameRange_loop.simps getTreeFramePtr_def)

lemma leading_attributes_done: "\<not> a < b \<Longrightarrow> leading_attributes frames a b = []"
  by (simp add: leading_attributes_def)

lemma leading_attributes_outside: "\<not> a < length frames \<Longrightarrow> leading_attributes frames a b = []"
  by (simp add: leading_attributes_def)

lemma leading_attributes_step:
  assumes "a < b" and "a < length frames"
  shows "leading_attributes frames a b =
           (if frameType (frames ! a) = FT_attribute
            then frames ! a # leading_attributes frames (a + 1) b else [])"
proof -
  from assms(2) have "drop a frames = frames ! a # drop (Suc a) frames"
    by (rule Cons_nth_drop_Suc [symmetric])
  moreover from assms(1) have "b - a = Suc (b - (a + 1))" by simp
  ultimately show ?thesis by (simp add: leading_attributes_def)
qed

lemma insertElement_loop_split:
  "insertElement_loop s cid el frames d e =
     (case applyAttributes s cid el (leading_attributes frames d e) of
        Inl err \<Rightarrow> Inl err
      | Inr s2 \<Rightarrow>
          (case insertFrameRange s2 cid (Some el) 0 frames
                  (d + length (leading_attributes frames d e)) e of
             Inl err \<Rightarrow> Inl err
           | Inr (m, s') \<Rightarrow> Inr s'))"
proof (induction "e - d" arbitrary: d s)
  case 0
  then have "\<not> d < e" by simp
  then show ?case
    by (simp add: leading_attributes_done insertFrameRange_empty insertElement_loop.simps)
next
  case (Suc k)
  then have lt: "d < e" by simp
  show ?case
  proof (cases "d < length frames")
    case False
    then show ?thesis
      using lt
      by (simp add: leading_attributes_outside insertFrameRange_outside insertElement_loop.simps
            getTreeFramePtr_def)
  next
    case True
    then have g: "getTreeFramePtr frames d = Inr (frames ! d)" by (simp add: getTreeFramePtr_def)
    show ?thesis
    proof (cases "frameType (frames ! d) = FT_attribute")
      case False
      then show ?thesis
        using lt True g
        by (subst insertElement_loop.simps) (simp add: leading_attributes_step split: sum.splits)
    next
      case att: True
      from Suc(2) have k: "k = e - (d + 1)" by simp
      have IH: "insertElement_loop s cid el frames (Suc d) e =
         (case applyAttributes s cid el (leading_attributes frames (Suc d) e) of
            Inl err \<Rightarrow> Inl err
          | Inr s2 \<Rightarrow>
              (case insertFrameRange s2 cid (Some el) 0 frames
                      (Suc (d + length (leading_attributes frames (Suc d) e))) e of
                 Inl err \<Rightarrow> Inl err
               | Inr (m, s') \<Rightarrow> Inr s'))" for s
        using Suc(1) [OF k, of s] by (simp cong: sum.case_cong)
      show ?thesis
        using lt True g att
        by (subst insertElement_loop.simps)
           (simp add: leading_attributes_step [OF lt True] IH cong: sum.case_cong
              split: sum.split [where sum = "applyAttribute s cid (Some el) (frames ! d)"])
    qed
  qed
qed

lemma length_AList_update: "length (AList.update k v al) \<le> Suc (length al)"
  by (induction al) auto

lemma applyAttribute_attributes:
  assumes "applyAttribute s cid (Some e) f = Inr s'"
  shows "length (attributes (nodes s' e)) \<le> Suc (length (attributes (nodes s e)))"
  using assms length_AList_update
  by (auto simp: applyAttribute_def tryApplyValueProperty_def setAttribute_def
        removeEventListener_def newListener_def addEventListener_def upd_def Let_def
      split: if_splits option.splits prod.splits)

lemma applyAttributes_decorated:
  assumes "dom_ok s" and "e < nextNode s" and "applyAttributes s cid e fs = Inr s'"
  shows "decorated frames s s' e \<and> childNodes (nodes s' e) = childNodes (nodes s e) \<and>
         length (attributes (nodes s' e)) \<le> length (attributes (nodes s e)) + length fs"
  using assms
proof (induction fs arbitrary: s)
  case Nil
  then show ?case by (simp add: decorated_refl)
next
  case (Cons f fs)
  from Cons.prems(3) obtain s1 where a: "applyAttribute s cid (Some e) f = Inr s1"
    and rest: "applyAttributes s1 cid e fs = Inr s'"
    by (auto split: sum.splits)
  have d1: "decorated frames s s1 e" using Cons.prems(1) a by (rule decorated_applyAttribute)
  have ok1: "dom_ok s1" using decoratedD(1) [OF d1] by (rule evolvesD)
  have e1: "e < nextNode s1" using Cons.prems(2) applyAttribute_shape(1) [OF a] by simp
  from Cons.IH [OF ok1 e1 rest] have d2: "decorated frames s1 s' e"
    and c2: "childNodes (nodes s' e) = childNodes (nodes s1 e)"
    and l2: "length (attributes (nodes s' e)) \<le> length (attributes (nodes s1 e)) + length fs"
    by simp_all
  have "decorated frames s s' e" using d1 d2 Cons.prems(2) by (rule decorated_trans)
  moreover have "childNodes (nodes s' e) = childNodes (nodes s e)"
    using c2 applyAttribute_shape(5) [OF a] by simp
  moreover have "length (attributes (nodes s' e)) \<le> length (attributes (nodes s e)) + length (f # fs)"
    using l2 applyAttribute_attributes [OF a] by simp
  ultimately show ?case by simp
qed


text \<open>
  C5.  Materializing an element frame.  Whenever \<^verbatim>\<open>insertFrame\<close> succeeds on an element
  frame (in a tree-shaped store, for a container that exists and an index that is not
  negative), it returns 1 and has done this: created an element named as the frame says
  and put it among the container's children at the index; applied the leading attribute
  frames of the frame's subtree to it, in order; and materialized the frames after them,
  up to the end of the subtree, as children of the new element from index 0 on.  The
  element then has at most as many string attributes as there are leading attribute
  frames (the range scan does not touch them), and as many children as the range
  materialization returned.
\<close>

theorem insertFrame_element:
  assumes el: "frameType fr = FT_element"
    and ok: "dom_ok s" and p: "p < nextNode s" and i: "0 \<le> childIndex"
    and r: "insertFrame s cid (Some p) childIndex frames fr frameIndex = Inr (n, s')"
  shows "n = 1 \<and>
    (\<exists>s1 s2 m.
       insertNodeIntoDOM (snd (createElement s (js_string (elementName fr)))) (nextNode s) (Some p)
         childIndex = Inr s1 \<and>
       applyAttributes s1 cid (nextNode s)
         (leading_attributes frames (frameIndex + 1) (frameIndex + subtreeLength fr)) = Inr s2 \<and>
       insertFrameRange s2 cid (Some (nextNode s)) 0 frames
         (frameIndex + 1 +
          length (leading_attributes frames (frameIndex + 1) (frameIndex + subtreeLength fr)))
         (frameIndex + subtreeLength fr) = Inr (m, s') \<and>
       nodeType (nodes s' (nextNode s)) = ElementNode \<and>
       localName (nodes s' (nextNode s)) = map to_lower (js_string (elementName fr)) \<and>
       parentNode (nodes s' (nextNode s)) = Some p \<and>
       childNodes (nodes s' p) =
         take (nat childIndex) (childNodes (nodes s p)) @ nextNode s #
         drop (nat childIndex) (childNodes (nodes s p)) \<and>
       attributes (nodes s' (nextNode s)) = attributes (nodes s2 (nextNode s)) \<and>
       length (attributes (nodes s' (nextNode s))) \<le>
         length (leading_attributes frames (frameIndex + 1) (frameIndex + subtreeLength fr)) \<and>
       int (length (childNodes (nodes s' (nextNode s)))) = m)"
proof -
  let ?e = "nextNode s"
  let ?n0 = "blank ElementNode (map to_lower (js_string (elementName fr))) []"
  let ?s0 = "snd (alloc s ?n0)"
  let ?as = "leading_attributes frames (frameIndex + 1) (frameIndex + subtreeLength fr)"
  have ce: "createElement s (js_string (elementName fr)) = (?e, ?s0)"
    by (simp add: createElement_def alloc_def)
  from r el have ie: "insertElement s cid (Some p) childIndex frames fr frameIndex = Inr s'"
    and n: "n = 1"
    by (auto simp: insertFrame.simps split: sum.splits)
  from ie obtain s1 where
    ins: "insertNodeIntoDOM ?s0 ?e (Some p) childIndex = Inr s1"
    and lp: "insertElement_loop s1 cid ?e frames (frameIndex + 1) (frameIndex + subtreeLength fr) = Inr s'"
    unfolding insertElement.simps [of s cid "Some p" childIndex frames fr frameIndex] ce
    by (auto split: sum.splits)
  from lp obtain s2 m where
    aa: "applyAttributes s1 cid ?e ?as = Inr s2"
    and rg: "insertFrameRange s2 cid (Some ?e) 0 frames (frameIndex + 1 + length ?as)
               (frameIndex + subtreeLength fr) = Inr (m, s')"
    unfolding insertElement_loop_split by (auto split: sum.splits)
  have n0: "parentNode ?n0 = None" "childNodes ?n0 = []" by (simp_all add: blank_def)
  note new = spliced_insert_new [OF ok p n0 ins]
  have ok1: "dom_ok s1" using splicedD(1) [OF new(1)] by (rule evolvesD)
  have e1: "?e < nextNode s1" by (simp add: new(3))
  from p have pe: "p \<noteq> ?e" by simp
  from applyAttributes_decorated [where frames = frames, OF ok1 e1 aa]
  have d2: "decorated frames s1 s2 ?e"
    and c2: "childNodes (nodes s2 ?e) = childNodes (nodes s1 ?e)"
    and l2: "length (attributes (nodes s2 ?e)) \<le> length (attributes (nodes s1 ?e)) + length ?as"
    by simp_all
  note ev2 = decoratedD(1) [OF d2]
  have ok2: "dom_ok s2" using ev2 by (rule evolvesD)
  have e2: "?e < nextNode s2" using e1 evolvesD(2) [OF ev2] by simp
  have p1: "p < nextNode s1" using p by (simp add: new(3))
  have p2: "p < nextNode s2" using p1 evolvesD(2) [OF ev2] by simp
  have sp: "spliced frames s2 s' ?e 0 m"
    using ok2 refl e2 rg by (rule insert_family_spliced(4))
  from splicedD(4) [OF sp] obtain L where L: "nodes s' ?e = (nodes s2 ?e)\<lparr> childNodes := L \<rparr>" ..
  from splicedD(5) [OF sp] obtain nw where
    "childNodes (nodes s' ?e) = take (nat 0) (childNodes (nodes s2 ?e)) @ nw @
        drop (nat 0) (childNodes (nodes s2 ?e))" and "int (length nw) = m"
    by auto
  then have kids: "int (length (childNodes (nodes s' ?e))) = m"
    by (simp add: c2 new(2) blank_def)
  have ty: "nodeType (nodes s' ?e) = ElementNode"
    using evolvesD(3) [OF splicedD(1) [OF sp] e2] evolvesD(3) [OF ev2 e1]
    by (simp add: new(2) blank_def)
  have nm: "localName (nodes s' ?e) = map to_lower (js_string (elementName fr))"
    using evolvesD(4) [OF splicedD(1) [OF sp] e2] evolvesD(4) [OF ev2 e1]
    by (simp add: new(2) blank_def)
  have par: "parentNode (nodes s' ?e) = Some p"
    using L decoratedD(3) [OF d2] by (simp add: new(2))
  have "nodes s' p = nodes s2 p" using splicedD(3) [OF sp p2 pe] .
  also have "\<dots> = nodes s1 p" using decoratedD(2) [OF d2 p1 pe] .
  finally have cp: "childNodes (nodes s' p) =
         take (nat childIndex) (childNodes (nodes s p)) @ ?e #
         drop (nat childIndex) (childNodes (nodes s p))"
    using new(5) [OF i] by simp
  have at: "attributes (nodes s' ?e) = attributes (nodes s2 ?e)" using L by simp
  have len: "length (attributes (nodes s' ?e)) \<le> length ?as"
    using l2 by (simp add: at new(2) blank_def)
  from ins have ins': "insertNodeIntoDOM (snd (createElement s (js_string (elementName fr)))) ?e (Some p)
         childIndex = Inr s1"
    by (simp add: ce)
  show ?thesis
    using n ins' aa rg ty nm par cp at len kids by blast
qed


text \<open>Definitions to unfold when a materialization is evaluated on concrete frames.\<close>

lemmas evaluate_insert =
  insertFrame.simps insertElement.simps insertElement_loop.simps insertFrameRange.simps
  insertFrameRange_loop.simps getTreeFramePtr_def insertText_def createTextNode_def
  createElement_def alloc_def insertNodeIntoDOM_def appendChild_def insertBefore_def detach_def
  upd_def js_string_def child_at_def blank_def applyAttribute_def tryApplyValueProperty_def
  setAttribute_def removeEventListener_def newListener_def addEventListener_def isCheckbox_def
  tagName_def getAttribute_def to_lower_def to_upper_def Let_def
  element_frame_def attribute_frame_def text_frame_def region_frame_def document0_def

lemma element_example:
  "\<exists>s'. insertFrame document0 1 (Some 0) 0
           [element_frame ''button'' 3, attribute_frame ''class'' (Some ''big'') 0, text_frame ''ok'']
           (element_frame ''button'' 3) 0 = Inr (1, s') \<and>
        childNodes (nodes s' 0) = [1] \<and> localName (nodes s' 1) = ''button'' \<and>
        attributes (nodes s' 1) = [(''class'', ''big'')] \<and>
        childNodes (nodes s' 1) = [2] \<and> data (nodes s' 2) = ''ok''"
  by (simp add: evaluate_insert)

lemma leading_attributes_example:
  "leading_attributes
     [element_frame ''button'' 3, attribute_frame ''class'' (Some ''big'') 0, text_frame ''ok''] 1 3 =
   [attribute_frame ''class'' (Some ''big'') 0]"
  by (simp add: leading_attributes_def attribute_frame_def text_frame_def)

theorem insertFrame_element_witness:
  "frameType (element_frame ''button'' 3) = FT_element \<and> dom_ok document0 \<and>
   (\<exists>s'. insertFrame document0 1 (Some 0) 0
           [element_frame ''button'' 3, attribute_frame ''class'' (Some ''big'') 0, text_frame ''ok'']
           (element_frame ''button'' 3) 0 = Inr (1, s') \<and>
         childNodes (nodes s' 0) = [1] \<and> localName (nodes s' 1) = ''button'' \<and>
         attributes (nodes s' 1) = [(''class'', ''big'')] \<and>
         childNodes (nodes s' 1) = [2] \<and> data (nodes s' 2) = ''ok'' \<and>
         nodeType (nodes s' 1) = ElementNode \<and> parentNode (nodes s' 1) = Some 0)"
proof -
  let ?F = "[element_frame ''button'' 3, attribute_frame ''class'' (Some ''big'') 0, text_frame ''ok'']"
  have el: "frameType (element_frame ''button'' 3) = FT_element" by (simp add: element_frame_def)
  have p: "0 < nextNode document0" and nx: "nextNode document0 = 1" by (simp_all add: document0_def)
  from element_example obtain s' where
    r: "insertFrame document0 1 (Some 0) 0 ?F (element_frame ''button'' 3) 0 = Inr (1, s')"
    and f: "childNodes (nodes s' 0) = [1]" "localName (nodes s' 1) = ''button''"
      "attributes (nodes s' 1) = [(''class'', ''big'')]"
      "childNodes (nodes s' 1) = [2]" "data (nodes s' 2) = ''ok''"
    by blast
  from insertFrame_element [OF el dom_ok_document0 p order_refl r]
  have "nodeType (nodes s' (nextNode document0)) = ElementNode"
    and "parentNode (nodes s' (nextNode document0)) = Some 0"
    by blast+
  then have "nodeType (nodes s' 1) = ElementNode" "parentNode (nodes s' 1) = Some 0"
    by (simp_all add: nx)
  with el dom_ok_document0 r f show ?thesis by blast
qed

text \<open>
  The counts of the claim as the spec has it do not hold.  A \<^verbatim>\<open><div>\<close> frame followed
  by two descendant frames that are not attributes, a region and a text, yields one
  descendant node, not two; a \<^verbatim>\<open><button>\<close> frame with the one attribute frame
  \<^verbatim>\<open>onclick\<close>, which is not the value-special-cased one, yields an element with no
  attribute.
\<close>

theorem insertFrame_element_counterexample:
  "frameType ([element_frame ''div'' 3, region_frame 2, text_frame ''a''] ! 1) \<noteq> FT_attribute \<and>
   frameType ([element_frame ''div'' 3, region_frame 2, text_frame ''a''] ! 2) \<noteq> FT_attribute \<and>
   fst (projr (insertFrame document0 1 (Some 0) 0
                 [element_frame ''div'' 3, region_frame 2, text_frame ''a'']
                 (element_frame ''div'' 3) 0)) = 1 \<and>
   nextNode (snd (projr (insertFrame document0 1 (Some 0) 0
                 [element_frame ''div'' 3, region_frame 2, text_frame ''a'']
                 (element_frame ''div'' 3) 0))) = 3 \<and>
   childNodes (nodes (snd (projr (insertFrame document0 1 (Some 0) 0
                 [element_frame ''div'' 3, region_frame 2, text_frame ''a'']
                 (element_frame ''div'' 3) 0))) 1) = [2] \<and>
   childNodes (nodes (snd (projr (insertFrame document0 1 (Some 0) 0
                 [element_frame ''div'' 3, region_frame 2, text_frame ''a'']
                 (element_frame ''div'' 3) 0))) 2) = [] \<and>
   attributeName (attribute_frame ''onclick'' None 7) \<noteq> Some ''value'' \<and>
   fst (projr (insertFrame document0 1 (Some 0) 0
                 [element_frame ''button'' 2, attribute_frame ''onclick'' None 7]
                 (element_frame ''button'' 2) 0)) = 1 \<and>
   attributes (nodes (snd (projr (insertFrame document0 1 (Some 0) 0
                 [element_frame ''button'' 2, attribute_frame ''onclick'' None 7]
                 (element_frame ''button'' 2) 0))) 1) = []"
  by (simp add: evaluate_insert)

subsection \<open>The walk keeps the store a tree\<close>

lemma evolves_upd_same:
  assumes "dom_ok s"
    and "parentNode (f (nodes s n)) = parentNode (nodes s n)"
    and "childNodes (f (nodes s n)) = childNodes (nodes s n)"
    and "nodeType (f (nodes s n)) = nodeType (nodes s n)"
    and "localName (f (nodes s n)) = localName (nodes s n)"
  shows "evolves frames s (upd s n f)"
proof (rule evolvesI)
  show "dom_ok (upd s n f)" using assms(1,2,3) by (rule dom_ok_upd_same)
  show "nodeType (nodes (upd s n f) x) = nodeType (nodes s x)" for x
    using assms(4) by simp
  show "localName (nodes (upd s n f) x) = localName (nodes s x)" for x
    using assms(5) by simp
qed simp_all

lemma kinds_detach:
  "nodeType (nodes (detach s c) x) = nodeType (nodes s x)"
  "localName (nodes (detach s c) x) = localName (nodes s x)"
  by (auto simp: detach_def split: option.splits)

lemma evolves_detach:
  assumes "dom_ok s" and "c < nextNode s"
  shows "evolves frames s (detach s c)"
  by (rule evolvesI) (simp_all add: dom_ok_detach [OF assms] kinds_detach)

lemma evolves_removeNodeFromDOM:
  assumes ok: "dom_ok s" and p: "p < nextNode s"
    and r: "removeNodeFromDOM s (Some p) idx = Inr s'"
  shows "evolves frames s s'"
proof -
  from r obtain c where c: "child_at (childNodes (nodes s p)) idx = Some c" and s': "s' = detach s c"
    by (auto simp: removeNodeFromDOM_def removeChild_def split: option.splits if_splits)
  from c have "c \<in> set (childNodes (nodes s p))"
    by (auto simp: child_at_def split: if_splits)
  from dom_okD_kids [OF ok p this] have "c < nextNode s" by simp
  with ok show ?thesis unfolding s' by (rule evolves_detach)
qed

lemma evolves_removeAttribute:
  assumes "dom_ok s" and "removeAttribute s e nm = Inr s'"
  shows "evolves frames s s'"
proof -
  from assms(2) have "s' = upd s e (\<lambda>x. x\<lparr> attributes := AList.delete (map to_lower nm) (attributes x) \<rparr>)"
    by (simp add: removeAttribute_def split: if_splits)
  then show ?thesis using assms(1) by (simp add: evolves_upd_same)
qed

lemma dom_ok_removeAllChildren:
  assumes ok: "dom_ok s" and e: "e < nextNode s"
  shows "dom_ok (removeAllChildren s e)"
proof -
  let ?s' = "removeAllChildren s e"
  have ne: "e \<notin> set (childNodes (nodes s e))"
    using dom_okD_kids [OF ok e, of e] by auto
  have 1: "(\<lambda>x. parentNode (nodes ?s' x)) =
           (\<lambda>x. if x \<in> set (childNodes (nodes s e)) then None else parentNode (nodes s x))"
    using ne by (auto simp: fun_eq_iff removeAllChildren_def)
  have 2: "(\<lambda>x. childNodes (nodes ?s' x)) = (\<lambda>x. childNodes (nodes s x))(e := [])"
    by (auto simp: fun_eq_iff removeAllChildren_def)
  have 3: "nextNode ?s' = nextNode s" by (simp add: removeAllChildren_def)
  show ?thesis
    unfolding dom_ok_def 1 2 3
    by (rule tree_ok_clear [OF ok [unfolded dom_ok_def] e])
qed

lemma evolves_removeAllChildren:
  assumes ok: "dom_ok s" and e: "e < nextNode s"
  shows "evolves frames s (removeAllChildren s e)"
  by (rule evolvesI)
     (simp_all add: dom_ok_removeAllChildren [OF assms], simp_all add: removeAllChildren_def)

lemma evolves_set_textContent:
  assumes ok: "dom_ok s" and e: "e < nextNode s"
    and r: "set_textContent s e v = Inr s'"
  shows "evolves frames s s'"
proof (cases "nodeType (nodes s e) = ElementNode")
  case False
  with r have "s' = upd s e (\<lambda>x. x\<lparr> data := (case v of None \<Rightarrow> [] | Some t \<Rightarrow> t) \<rparr>)"
    by (simp add: set_textContent_def Let_def)
  then show ?thesis using ok by (simp add: evolves_upd_same)
next
  case True
  let ?s1 = "removeAllChildren s e"
  let ?txt = "case v of None \<Rightarrow> [] | Some t \<Rightarrow> t"
  have e1: "evolves frames s ?s1" using ok e by (rule evolves_removeAllChildren)
  show ?thesis
  proof (cases "?txt = []")
    case empty: True
    with r True have "s' = ?s1" by (simp add: set_textContent_def Let_def)
    with e1 show ?thesis by simp
  next
    case False
    have n1: "nextNode ?s1 = nextNode s" by (simp add: removeAllChildren_def)
    have k1: "childNodes (nodes ?s1 e) = []" by (simp add: removeAllChildren_def)
    let ?s2 = "snd (alloc ?s1 (blank TextNode [] ?txt))"
    from r True False have "appendChild ?s2 e (Some (nextNode s)) = Inr s'"
      by (simp add: set_textContent_def Let_def createTextNode_def alloc_def n1)
    moreover have "childNodes (nodes ?s2 e) = []"
      using e k1 by (simp add: alloc_def n1)
    ultimately have "insertNodeIntoDOM ?s2 (nextNode ?s1) (Some e) 0 = Inr s'"
      by (simp add: insertNodeIntoDOM_def n1)
    then have "spliced frames ?s1 s' e 0 1"
      using e by (intro spliced_insert_new(1) [OF evolvesD(1) [OF e1]]) (simp_all add: n1 blank_def)
    from e1 splicedD(1) [OF this] show ?thesis by (rule evolves_trans)
  qed
qed

text \<open>With no container, nothing can be materialized but empty regions.\<close>

lemma insert_family_nowhere:
  shows "parent = None \<Longrightarrow>
         insertFrame s cid parent childIndex frames fr frameIndex = Inr (n, s') \<Longrightarrow> s' = s"
    and "parent = None \<Longrightarrow>
         insertElement s cid parent childIndex frames fr frameIndex = Inr s' \<Longrightarrow> False"
    and "insertElement_loop s cid newDomElement frames descendantIndex descendantsEndIndexExcl = Inr s' \<Longrightarrow> True"
    and "parent = None \<Longrightarrow>
         insertFrameRange s cid parent childIndex frames startIndex endIndexExcl = Inr (n, s') \<Longrightarrow> s' = s"
    and "parent = None \<Longrightarrow>
         insertFrameRange_loop s cid parent childIndex frames index endIndexExcl = Inr (c, s') \<Longrightarrow> s' = s"
proof (induction s cid parent childIndex frames fr frameIndex
         and s cid parent childIndex frames fr frameIndex
         and s cid newDomElement frames descendantIndex descendantsEndIndexExcl
         and s cid parent childIndex frames startIndex endIndexExcl
         and s cid parent childIndex frames index endIndexExcl
       arbitrary: n s' and s' and s' and n s' and c s'
       rule: insertFrame_insertElement_insertElement_loop_insertFrameRange_insertFrameRange_loop.induct)
  case (1 s cid parent childIndex frames fr frameIndex)
  note r = "1.prems"(2) [unfolded insertFrame.simps [of s cid parent childIndex frames fr frameIndex]]
  show ?case
  proof (cases "frameType fr")
    case FT_element
    with r obtain s2 where "insertElement s cid parent childIndex frames fr frameIndex = Inr s2"
      by (auto split: sum.splits)
    with "1.IH"(1) [OF FT_element "1.prems"(1)] show ?thesis by simp
  next
    case FT_text
    with r "1.prems"(1) show ?thesis
      by (auto simp: insertText_def insertNodeIntoDOM_def split: sum.splits prod.splits)
  next
    case FT_attribute
    with r show ?thesis by simp
  next
    case FT_component
    with r "1.prems"(1) show ?thesis
      by (auto simp: insertComponent_def insertComponentMarker_def insertNodeIntoDOM_def
            split: sum.splits prod.splits)
  next
    case FT_region
    with r "1.IH"(2) [OF FT_region "1.prems"(1)] show ?thesis by simp
  qed
next
  case (2 s cid parent childIndex frames fr frameIndex)
  from "2.prems" show ?case
    unfolding insertElement.simps [of s cid parent childIndex frames fr frameIndex]
    by (auto simp: insertNodeIntoDOM_def split: sum.splits prod.splits)
next
  case 3
  show ?case by simp
next
  case (4 s cid parent childIndex frames startIndex endIndexExcl)
  from "4.prems"(2) obtain c where
    "insertFrameRange_loop s cid parent childIndex frames startIndex endIndexExcl = Inr (c, s')"
    unfolding insertFrameRange.simps [of s cid parent childIndex frames startIndex endIndexExcl]
    by (auto split: sum.splits)
  from "4.IH" [OF "4.prems"(1) this] show ?case .
next
  case (5 s cid parent childIndex frames index endIndexExcl)
  note r = "5.prems"(2) [unfolded insertFrameRange_loop.simps
             [of s cid parent childIndex frames index endIndexExcl]]
  show ?case
  proof (cases "index < endIndexExcl")
    case False
    with r show ?thesis by simp
  next
    case True
    with r obtain b n1 s1 where b: "getTreeFramePtr frames index = Inr b"
      and f: "insertFrame s cid parent childIndex frames b index = Inr (n1, s1)"
      and l: "insertFrameRange_loop s1 cid parent (childIndex + n1) frames
                ((if 1 < subtreeLength b then index + (subtreeLength b - 1) else index) + 1)
                endIndexExcl = Inr (c, s')"
      by (auto split: sum.splits)
    from "5.IH"(1) [OF True b "5.prems"(1) f] have "s1 = s" .
    moreover from "5.IH"(2) [OF True b f refl "5.prems"(1) l] have "s' = s1" .
    ultimately show ?thesis by simp
  qed
qed


lemma applyEdit_evolves:
  assumes ok: "dom_ok (st w)"
    and c: "\<And>p. container w = Some p \<Longrightarrow> p < nextNode (st w)"
    and r: "applyEdit cid childIndex frames w ed = Inr w'"
  shows "evolves frames (st w) (st w') \<and> (\<forall>p. container w' = Some p \<longrightarrow> p < nextNode (st w'))"
proof -
  have keep: "evolves frames (st w) (st w') \<and> (\<forall>p. container w' = Some p \<longrightarrow> p < nextNode (st w'))"
    if "evolves frames (st w) (st w')" and "container w' = container w"
  proof -
    have "p < nextNode (st w')" if "container w' = Some p" for p
    proof -
      from that \<open>container w' = container w\<close> have "container w = Some p" by simp
      from c [OF this] evolvesD(2) [OF \<open>evolves frames (st w) (st w')\<close>] show ?thesis by simp
    qed
    with that(1) show ?thesis by simp
  qed
  show ?thesis
  proof (cases ed)
    case (PrependFrame k i)
    with r obtain fr n s' where fr: "getTreeFramePtr frames i = Inr fr"
      and f: "insertFrame (st w) cid (container w) (childIndexAtCurrentDepth w + k) frames fr i = Inr (n, s')"
      and w': "st w' = s'" "container w' = container w"
      by (auto split: sum.splits)
    from fr have mem: "fr \<in> set frames" by (auto simp: getTreeFramePtr_def split: if_splits)
    have "evolves frames (st w) s'"
    proof (cases "container w")
      case None
      from insert_family_nowhere(1) [OF None f] ok show ?thesis by (simp add: evolves_refl)
    next
      case (Some p)
      from insert_family_spliced(1) [OF ok Some c [OF Some] mem f] show ?thesis by (rule splicedD)
    qed
    then show ?thesis using w' by (intro keep) simp_all
  next
    case (RemoveFrame k)
    with r obtain s' where f: "removeNodeFromDOM (st w) (container w) (childIndexAtCurrentDepth w + k) = Inr s'"
      and w': "st w' = s'" "container w' = container w"
      by (auto split: sum.splits)
    from f obtain p where p: "container w = Some p"
      by (cases "container w") (auto simp: removeNodeFromDOM_def)
    from evolves_removeNodeFromDOM [OF ok c [OF p] f [unfolded p]] show ?thesis
      using w' by (intro keep) simp_all
  next
    case (SetAttribute k i)
    with r obtain fr p s' where p: "container w = Some p"
      and f: "applyAttribute (st w) cid
                (child_at (childNodes (nodes (st w) p)) (childIndexAtCurrentDepth w + k)) fr = Inr s'"
      and w': "st w' = s'" "container w' = container w"
      by (auto split: sum.splits option.splits)
    from f obtain e where "child_at (childNodes (nodes (st w) p)) (childIndexAtCurrentDepth w + k) = Some e"
      by (cases "child_at (childNodes (nodes (st w) p)) (childIndexAtCurrentDepth w + k)")
         (auto simp: applyAttribute_def)
    with f have "applyAttribute (st w) cid (Some e) fr = Inr s'" by simp
    from decoratedD(1) [OF decorated_applyAttribute [OF ok this]] show ?thesis
      using w' by (intro keep) simp_all
  next
    case (RemoveAttribute k nm)
    with r obtain p e s' where p: "container w = Some p"
      and f: "removeAttribute (st w) e (js_string nm) = Inr s'"
      and w': "st w' = s'" "container w' = container w"
      by (auto simp: removeAttributeFromDOM_def split: sum.splits option.splits)
    from evolves_removeAttribute [OF ok f] show ?thesis
      using w' by (intro keep) simp_all
  next
    case (UpdateText k i)
    with r have "\<exists>fr p e s'. getTreeFramePtr frames i = Inr fr \<and> container w = Some p \<and>
        child_at (childNodes (nodes (st w) p)) (childIndexAtCurrentDepth w + k) = Some e \<and>
        set_textContent (st w) e (textContent fr) = Inr s' \<and>
        st w' = s' \<and> container w' = container w"
      by (auto split: sum.splits option.splits)
    then obtain fr :: frame and p e s' where p: "container w = Some p"
      and e: "child_at (childNodes (nodes (st w) p)) (childIndexAtCurrentDepth w + k) = Some e"
      and f: "set_textContent (st w) e (textContent fr) = Inr s'"
      and w': "st w' = s'" "container w' = container w"
      by blast
    from e have "e \<in> set (childNodes (nodes (st w) p))"
      by (auto simp: child_at_def split: if_splits)
    from dom_okD_kids [OF ok c [OF p] this] have "e < nextNode (st w)" by simp
    from evolves_set_textContent [OF ok this f] show ?thesis
      using w' by (intro keep) simp_all
  next
    case (StepIn k)
    with r obtain p where p: "container w = Some p"
      and w': "st w' = st w"
        "container w' = child_at (childNodes (nodes (st w) p)) (childIndexAtCurrentDepth w + k)"
      by (auto split: option.splits)
    have "q < nextNode (st w)" if "container w' = Some q" for q
    proof -
      from that w'(2) have "q \<in> set (childNodes (nodes (st w) p))"
        by (auto simp: child_at_def split: if_splits)
      from dom_okD_kids [OF ok c [OF p] this] show ?thesis by simp
    qed
    then show ?thesis using ok by (simp add: w'(1) evolves_refl)
  next
    case StepOut
    with r obtain p where p: "container w = Some p"
      and w': "st w' = st w" "container w' = parentElement (st w) p"
      by (auto split: option.splits)
    have "q < nextNode (st w)" if "container w' = Some q" for q
    proof -
      from that w'(2) have "parentNode (nodes (st w) p) = Some q"
        by (auto simp: parentElement_def split: option.splits if_splits)
      from dom_okD_par [OF ok c [OF p] this] show ?thesis by simp
    qed
    then show ?thesis using ok by (simp add: w'(1) evolves_refl)
  qed
qed

lemma applyEdits_loop_evolves:
  assumes "dom_ok (st w)"
    and "\<And>p. container w = Some p \<Longrightarrow> p < nextNode (st w)"
    and "applyEdits_loop cid childIndex edits frames a b w = Inr w'"
  shows "evolves frames (st w) (st w')"
  using assms
proof (induction cid childIndex edits frames a b w rule: applyEdits_loop.induct)
  case (1 cid childIndex edits frames a b w)
  show ?case
  proof (cases "a < b")
    case False
    with "1.prems"(3) have "w' = w" by (simp add: applyEdits_loop_done)
    then show ?thesis using "1.prems"(1) by (simp add: evolves_refl)
  next
    case True
    from "1.prems"(3) obtain ed w1 where
      ed: "getRenderTreeEditPtr edits a = Inr ed"
      and st: "applyEdit cid childIndex frames w ed = Inr w1"
      and rest: "applyEdits_loop cid childIndex edits frames (a + 1) b w1 = Inr w'"
      unfolding applyEdits_loop_step [OF True] by (auto split: sum.splits)
    from applyEdit_evolves [OF "1.prems"(1,2) st]
    have e1: "evolves frames (st w) (st w1)"
      and c1: "\<And>p. container w1 = Some p \<Longrightarrow> p < nextNode (st w1)"
      by simp_all
    have "evolves frames (st w1) (st w')"
      by (rule "1.IH" [OF True ed st evolvesD(1) [OF e1] c1 rest])
    with e1 show ?thesis by (rule evolves_trans)
  qed
qed

lemma applyEdits_evolves:
  assumes "dom_ok s" and "p < nextNode s"
    and "applyEdits s cid (Some p) childIndex edits editsOffset editsLength frames = Inr (delta, s')"
  shows "evolves frames s s'"
proof -
  from assms(3) obtain w where
    l: "applyEdits_loop cid childIndex edits frames editsOffset (editsOffset + editsLength)
       (walk_start s (Some p) childIndex) = Inr w" and w: "st w = s'"
    by (auto simp: applyEdits_def split: sum.splits)
  have "evolves frames (st (walk_start s (Some p) childIndex)) (st w)"
    by (rule applyEdits_loop_evolves [OF _ _ l]) (simp_all add: walk_start_def assms(1,2))
  then show ?thesis by (simp add: w walk_start_def)
qed

subsection \<open>Updating a component\<close>

lemma indexOf_found: "x \<in> set cs \<Longrightarrow> 0 \<le> indexOf cs x"
  by (induction cs) (auto simp: Let_def)

lemma locate_ok:
  assumes ok: "dom_ok s" and m: "marker < nextNode s"
    and l: "locate s marker = Inr (parent, childIndex, occupied, isWrapped, s0)"
  shows "evolves frames s s0" and "parent < nextNode s0" and "0 \<le> childIndex"
    and "isWrapped \<Longrightarrow> parent = marker \<and> tagName s marker = Some ''BLAZOR-COMPONENT''"
proof -
  have par: "parent < nextNode s \<and> marker \<in> set (childNodes (nodes s parent))"
    if "parentElement s marker = Some parent"
  proof -
    from that have "parentNode (nodes s marker) = Some parent"
      by (auto simp: parentElement_def split: option.splits if_splits)
    from dom_okD_par [OF ok m this] show ?thesis by simp
  qed
  consider (comment) "nodeType (nodes s marker) = CommentNode"
    | (wrapper) "nodeType (nodes s marker) \<noteq> CommentNode"
        "nodeType (nodes s marker) = ElementNode \<and> tagName s marker = Some ''BLAZOR-COMPONENT''"
    | (bare) "nodeType (nodes s marker) \<noteq> CommentNode"
        "\<not> (nodeType (nodes s marker) = ElementNode \<and> tagName s marker = Some ''BLAZOR-COMPONENT'')"
    by blast
  then have "evolves frames s s0 \<and> parent < nextNode s0 \<and> 0 \<le> childIndex \<and>
             (isWrapped \<longrightarrow> parent = marker \<and> tagName s marker = Some ''BLAZOR-COMPONENT'')"
  proof cases
    case comment
    with l have pe: "parentElement s marker = Some parent" and s0: "s0 = detach s marker"
      and ci: "childIndex = indexOf (childNodes (nodes s parent)) marker" and nw: "\<not> isWrapped"
      by (auto simp: locate_def removeChild_def split: option.splits sum.splits if_splits)
    from par [OF pe] ci have "0 \<le> childIndex" "parent < nextNode s0"
      by (simp_all add: indexOf_found s0)
    with nw evolves_detach [OF ok m] show ?thesis by (simp add: s0)
  next
    case wrapper
    with l have "parent = marker" "s0 = s" "childIndex = 0" "isWrapped"
      by (simp_all add: locate_def)
    with wrapper ok m show ?thesis by (simp add: evolves_refl)
  next
    case bare
    with l have pe: "parentElement s marker = Some parent" and s0: "s0 = s"
      and ci: "childIndex = indexOf (childNodes (nodes s parent)) marker" and nw: "\<not> isWrapped"
      by (auto simp: locate_def split: option.splits if_splits)
    from par [OF pe] ci have "0 \<le> childIndex" "parent < nextNode s0"
      by (simp_all add: indexOf_found s0)
    with nw ok show ?thesis by (simp add: s0 evolves_refl)
  qed
  then show "evolves frames s s0" and "parent < nextNode s0" and "0 \<le> childIndex"
    and "isWrapped \<Longrightarrow> parent = marker \<and> tagName s marker = Some ''BLAZOR-COMPONENT''"
    by simp_all
qed


lemma wrap_loop_done: "\<not> i < nodeCount \<Longrightarrow> wrap_loop s w P childIndex i nodeCount = Inr s"
  by (subst wrap_loop.simps) simp

lemma wrap_loop_step:
  "i < nodeCount \<Longrightarrow>
   wrap_loop s w P childIndex i nodeCount =
     (case appendChild s w (child_at (childNodes (nodes s P)) (childIndex + 1)) of
        Inl e \<Rightarrow> Inl e
      | Inr s' \<Rightarrow> wrap_loop s' w P childIndex (i + 1) nodeCount)"
  by (subst wrap_loop.simps) simp

text \<open>Moving the first of the siblings that follow the wrapper into the wrapper.\<close>

lemma wrap_move_one:
  assumes ok: "dom_ok s" and P: "P < nextNode s" and w: "w < nextNode s"
    and kids: "childNodes (nodes s P) = pre @ w # rest" and k: "int (length pre) = childIndex"
    and r: "appendChild s w (child_at (childNodes (nodes s P)) (childIndex + 1)) = Inr s1"
  shows "\<exists>c rest'. rest = c # rest' \<and> dom_ok s1 \<and> nextNode s1 = nextNode s \<and>
           childNodes (nodes s1 P) = pre @ w # rest' \<and>
           childNodes (nodes s1 w) = childNodes (nodes s w) @ [c] \<and>
           childComponentLocations s1 = childComponentLocations s \<and>
           (\<forall>x. nodeType (nodes s1 x) = nodeType (nodes s x) \<and>
                localName (nodes s1 x) = localName (nodes s x)) \<and>
           parentNode (nodes s1 w) = parentNode (nodes s w)"
proof -
  from k have idx: "child_at (pre @ w # rest) (childIndex + 1) = (if rest = [] then None else Some (hd rest))"
    by (cases rest) (auto simp: child_at_def nth_append nat_add_distrib)
  from r obtain c rest' where rest: "rest = c # rest'"
    and a: "appendChild s w (Some c) = Inr s1"
    unfolding kids idx by (cases rest) (auto simp: appendChild_def)
  have cin: "c \<in> set (childNodes (nodes s P))" and win: "w \<in> set (childNodes (nodes s P))"
    by (simp_all add: kids rest)
  from dom_okD_kids [OF ok P cin] have c: "c < nextNode s" "c \<noteq> P" "parentNode (nodes s c) = Some P"
    by simp_all
  from dom_okD_kids [OF ok P win] have wP: "w \<noteq> P" by simp
  from dom_okD_distinct [OF ok P] have d: "distinct (pre @ w # c # rest')"
    by (simp add: kids rest)
  then have cw: "c \<noteq> w" and cpre: "c \<notin> set pre" by auto
  have rm: "remove1 c (pre @ w # c # rest') = pre @ w # rest'"
    using cw cpre by (simp add: remove1_append)
  let ?d = "detach s c"
  have okd: "dom_ok ?d" using ok c(1) by (rule dom_ok_detach)
  have orphan: "parentNode (nodes ?d c) = None" using ok c(1) by (rule detach_orphaned)
  have dP: "childNodes (nodes ?d P) = pre @ w # rest'"
    using c(2,3) rm by (simp add: detach_def kids rest)
  have dw: "nodes ?d w = nodes s w"
    using c(3) cw wP by (simp add: detach_def)
  from a have s1: "s1 = upd (upd ?d w (\<lambda>n. n\<lparr> childNodes := childNodes n @ [c] \<rparr>))
                          c (\<lambda>n. n\<lparr> parentNode := Some w \<rparr>)"
    by (auto simp: appendChild_def split: if_splits)
  have L: "childNodes (nodes ?d w) @ [c] =
           take (length (childNodes (nodes ?d w))) (childNodes (nodes ?d w)) @ c #
           drop (length (childNodes (nodes ?d w))) (childNodes (nodes ?d w))"
    by simp
  have s1': "s1 = upd (upd ?d w (\<lambda>n. n\<lparr> childNodes := childNodes (nodes ?d w) @ [c] \<rparr>))
                          c (\<lambda>n. n\<lparr> parentNode := Some w \<rparr>)"
    unfolding s1 by (simp add: upd_def)
  have ok1: "dom_ok s1"
    unfolding s1' by (rule dom_ok_link [OF okd _ _ cw orphan L]) (simp_all add: w c(1))
  have "childNodes (nodes s1 P) = pre @ w # rest'"
    using wP c(2) dP by (simp add: s1)
  moreover have "childNodes (nodes s1 w) = childNodes (nodes s w) @ [c]"
    using cw dw by (simp add: s1)
  moreover have "parentNode (nodes s1 w) = parentNode (nodes s w)"
    using cw dw by (simp add: s1)
  moreover have "nodeType (nodes s1 x) = nodeType (nodes s x) \<and>
                 localName (nodes s1 x) = localName (nodes s x)" for x
    by (simp add: s1 kinds_detach)
  moreover have "nextNode s1 = nextNode s" "childComponentLocations s1 = childComponentLocations s"
    by (simp_all add: s1)
  ultimately show ?thesis using rest ok1 by blast
qed

lemma wrap_loop_moves:
  assumes "dom_ok s" and "P < nextNode s" and "w < nextNode s"
    and "childNodes (nodes s P) = pre @ w # rest" and "int (length pre) = childIndex"
    and "wrap_loop s w P childIndex i nodeCount = Inr s'"
  shows "nat (nodeCount - i) \<le> length rest \<and> dom_ok s' \<and> nextNode s' = nextNode s \<and>
         childNodes (nodes s' P) = pre @ w # drop (nat (nodeCount - i)) rest \<and>
         childNodes (nodes s' w) = childNodes (nodes s w) @ take (nat (nodeCount - i)) rest \<and>
         childComponentLocations s' = childComponentLocations s \<and>
         (\<forall>x. nodeType (nodes s' x) = nodeType (nodes s x) \<and>
              localName (nodes s' x) = localName (nodes s x)) \<and>
         parentNode (nodes s' w) = parentNode (nodes s w)"
  using assms
proof (induction s w P childIndex i nodeCount arbitrary: rest rule: wrap_loop.induct)
  case (1 s w P childIndex i nodeCount)
  show ?case
  proof (cases "i < nodeCount")
    case False
    with "1.prems"(6) have "s' = s" by (simp add: wrap_loop_done)
    with False "1.prems"(1,4) show ?thesis by simp
  next
    case True
    from "1.prems"(6) obtain s1 where
      a: "appendChild s w (child_at (childNodes (nodes s P)) (childIndex + 1)) = Inr s1"
      and l: "wrap_loop s1 w P childIndex (i + 1) nodeCount = Inr s'"
      unfolding wrap_loop_step [OF True] by (auto split: sum.splits)
    from wrap_move_one [OF "1.prems"(1,2,3,4,5) a] obtain c rest' where
      rest: "rest = c # rest'" and ok1: "dom_ok s1" and n1: "nextNode s1 = nextNode s"
      and P1: "childNodes (nodes s1 P) = pre @ w # rest'"
      and w1: "childNodes (nodes s1 w) = childNodes (nodes s w) @ [c]"
      and r1: "childComponentLocations s1 = childComponentLocations s"
      and k1: "\<forall>x. nodeType (nodes s1 x) = nodeType (nodes s x) \<and>
                   localName (nodes s1 x) = localName (nodes s x)"
      and p1: "parentNode (nodes s1 w) = parentNode (nodes s w)"
      by blast
    have rec: "nat (nodeCount - (i + 1)) \<le> length rest' \<and> dom_ok s' \<and> nextNode s' = nextNode s1 \<and>
         childNodes (nodes s' P) = pre @ w # drop (nat (nodeCount - (i + 1))) rest' \<and>
         childNodes (nodes s' w) = childNodes (nodes s1 w) @ take (nat (nodeCount - (i + 1))) rest' \<and>
         childComponentLocations s' = childComponentLocations s1 \<and>
         (\<forall>x. nodeType (nodes s' x) = nodeType (nodes s1 x) \<and>
              localName (nodes s' x) = localName (nodes s1 x)) \<and>
         parentNode (nodes s' w) = parentNode (nodes s1 w)"
      by (rule "1.IH" [OF True a ok1 _ _ P1 "1.prems"(5) l]) (simp_all add: n1 "1.prems"(2,3))
    from True have m: "nat (nodeCount - i) = Suc (nat (nodeCount - (i + 1)))" by simp
    show ?thesis
      unfolding m rest using rec by (simp add: n1 w1 r1 k1 p1)
  qed
qed


lemma wrap_loop_from_cursor:
  assumes ok: "dom_ok s" and P: "P < nextNode s" and w: "w < nextNode s"
    and kids: "childNodes (nodes s P) = take (nat childIndex) cs @ w # drop (nat childIndex) cs"
    and k: "0 \<le> childIndex"
    and r: "wrap_loop s w P childIndex 0 nodeCount = Inr s'"
  shows "dom_ok s'" and "nextNode s' = nextNode s"
    and "childNodes (nodes s' P) = take (nat childIndex) cs @ w # drop (nat childIndex + nat nodeCount) cs"
    and "childNodes (nodes s' w) = childNodes (nodes s w) @ take (nat nodeCount) (drop (nat childIndex) cs)"
    and "length (take (nat nodeCount) (drop (nat childIndex) cs)) = nat nodeCount"
    and "childComponentLocations s' = childComponentLocations s"
    and "\<And>x. nodeType (nodes s' x) = nodeType (nodes s x)"
    and "\<And>x. localName (nodes s' x) = localName (nodes s x)"
    and "parentNode (nodes s' w) = parentNode (nodes s w)"
proof -
  have all: "dom_ok s' \<and> nextNode s' = nextNode s \<and>
    childNodes (nodes s' P) = take (nat childIndex) cs @ w # drop (nat childIndex + nat nodeCount) cs \<and>
    childNodes (nodes s' w) = childNodes (nodes s w) @ take (nat nodeCount) (drop (nat childIndex) cs) \<and>
    length (take (nat nodeCount) (drop (nat childIndex) cs)) = nat nodeCount \<and>
    childComponentLocations s' = childComponentLocations s \<and>
    (\<forall>x. nodeType (nodes s' x) = nodeType (nodes s x) \<and>
         localName (nodes s' x) = localName (nodes s x)) \<and>
    parentNode (nodes s' w) = parentNode (nodes s w)"
  proof (cases "0 < nodeCount")
    case False
    with r have "s' = s" by (simp add: wrap_loop_done)
    with False ok kids show ?thesis by simp
  next
    case True
    show ?thesis
    proof (cases "nat childIndex \<le> length cs")
      case le: True
      with k have len: "int (length (take (nat childIndex) cs)) = childIndex" by simp
      from wrap_loop_moves [OF ok P w kids len r]
      show ?thesis by (simp add: add.commute)
    next
      case False
      then have "child_at (childNodes (nodes s P)) (childIndex + 1) = None"
        by (simp add: kids child_at_def)
      with r True have False
        by (simp add: wrap_loop_step appendChild_def)
      then show ?thesis ..
    qed
  qed
  show "dom_ok s'" and "nextNode s' = nextNode s"
    and "childNodes (nodes s' P) = take (nat childIndex) cs @ w # drop (nat childIndex + nat nodeCount) cs"
    and "childNodes (nodes s' w) = childNodes (nodes s w) @ take (nat nodeCount) (drop (nat childIndex) cs)"
    and "length (take (nat nodeCount) (drop (nat childIndex) cs)) = nat nodeCount"
    and "childComponentLocations s' = childComponentLocations s"
    and "\<And>x. nodeType (nodes s' x) = nodeType (nodes s x)"
    and "\<And>x. localName (nodes s' x) = localName (nodes s x)"
    and "parentNode (nodes s' w) = parentNode (nodes s w)"
    using all by simp_all
qed

lemma fst_alloc: "fst (alloc s n) = nextNode s"
  by (simp add: alloc_def)

lemma dom_ok_locations:
  "dom_ok (s\<lparr> childComponentLocations := f \<rparr>) = dom_ok s"
  by (simp add: dom_ok_def)

text \<open>
  What \<^verbatim>\<open>updateComponent\<close> does after the walk, in a tree-shaped store, in terms of what
  \<open>locate\<close> and the walk return (whether the number \<open>locate\<close> returns is the number of
  nodes the component has in the tree is another matter, see below).  The store is still
  a tree.  If the registered node was taken for a wrapper, nothing happens after the
  walk: the node is still a \<^verbatim>\<open>BLAZOR-COMPONENT\<close> element and, unless a component frame of
  the table carries the component's own id, it is still the registered node.  Otherwise,
  if the sum of the two numbers is 1, the only change after the walk is that the node at
  the cursor start is registered; if it is not 1, a new \<^verbatim>\<open>BLAZOR-COMPONENT\<close> element is
  registered, it sits in the container at the cursor start, its children are the nodes
  that followed the cursor start, exactly as many as the sum (none when it is not
  positive), and they are gone from the container.
\<close>

lemma updateComponent_after_walk:
  assumes ok: "dom_ok s" and loc: "childComponentLocations s cid = Some marker"
    and m: "marker < nextNode s"
    and u: "updateComponent s cid edits editsOffset editsLength referenceFrames = Inr s'"
  shows "\<exists>parent childIndex occupied isWrapped s0 delta s1.
           locate s marker = Inr (parent, childIndex, occupied, isWrapped, s0) \<and>
           applyEdits s0 cid (Some parent) childIndex edits editsOffset editsLength referenceFrames =
             Inr (delta, s1) \<and>
           dom_ok s' \<and>
           (if isWrapped then
              s' = s1 \<and> tagName s' marker = Some ''BLAZOR-COMPONENT'' \<and>
              (\<not> binds referenceFrames cid \<longrightarrow> childComponentLocations s' cid = Some marker)
            else if occupied + delta = 1 then
              s' = s1\<lparr> childComponentLocations :=
                        (childComponentLocations s1)
                          (cid := child_at (childNodes (nodes s1 parent)) childIndex) \<rparr>
            else
              childComponentLocations s' = (childComponentLocations s1)(cid := Some (nextNode s1)) \<and>
              tagName s' (nextNode s1) = Some ''BLAZOR-COMPONENT'' \<and>
              parentNode (nodes s' (nextNode s1)) = Some parent \<and>
              childNodes (nodes s' parent) =
                take (nat childIndex) (childNodes (nodes s1 parent)) @ nextNode s1 #
                drop (nat childIndex + nat (occupied + delta)) (childNodes (nodes s1 parent)) \<and>
              childNodes (nodes s' (nextNode s1)) =
                take (nat (occupied + delta)) (drop (nat childIndex) (childNodes (nodes s1 parent))) \<and>
              length (childNodes (nodes s' (nextNode s1))) = nat (occupied + delta))"
proof -
  from u loc obtain parent childIndex occupied isWrapped s0 where
    l: "locate s marker = Inr (parent, childIndex, occupied, isWrapped, s0)"
    by (auto simp: updateComponent_def split: sum.splits)
  from u loc l obtain delta s1 where
    a: "applyEdits s0 cid (Some parent) childIndex edits editsOffset editsLength referenceFrames =
          Inr (delta, s1)"
    by (auto simp: updateComponent_def split: sum.splits)
  let ?n0 = "blank ElementNode (map to_lower ''blazor-component'') []"
  let ?w = "nextNode s1"
  let ?cs = "childNodes (nodes s1 parent)"
  let ?count = "occupied + delta"
  note unfold = updateComponent_def loc l a Let_def createElement_def split_beta fst_alloc
  from locate_ok [OF ok m l] have ev0: "evolves referenceFrames s s0"
    and p0: "parent < nextNode s0" and k: "0 \<le> childIndex"
    and wr: "isWrapped \<Longrightarrow> parent = marker \<and> tagName s marker = Some ''BLAZOR-COMPONENT''"
    by simp_all
  have ok0: "dom_ok s0" using ev0 by (rule evolvesD)
  have ev1: "evolves referenceFrames s0 s1" using ok0 p0 a by (rule applyEdits_evolves)
  have ok1: "dom_ok s1" using ev1 by (rule evolvesD)
  have p1: "parent < nextNode s1" using p0 evolvesD(2) [OF ev1] by simp
  have ev: "evolves referenceFrames s s1" using ev0 ev1 by (rule evolves_trans)
  have rest: "dom_ok s' \<and>
           (if isWrapped then
              s' = s1 \<and> tagName s' marker = Some ''BLAZOR-COMPONENT'' \<and>
              (\<not> binds referenceFrames cid \<longrightarrow> childComponentLocations s' cid = Some marker)
            else if ?count = 1 then
              s' = s1\<lparr> childComponentLocations :=
                        (childComponentLocations s1)(cid := child_at ?cs childIndex) \<rparr>
            else
              childComponentLocations s' = (childComponentLocations s1)(cid := Some ?w) \<and>
              tagName s' ?w = Some ''BLAZOR-COMPONENT'' \<and>
              parentNode (nodes s' ?w) = Some parent \<and>
              childNodes (nodes s' parent) =
                take (nat childIndex) ?cs @ ?w # drop (nat childIndex + nat ?count) ?cs \<and>
              childNodes (nodes s' ?w) = take (nat ?count) (drop (nat childIndex) ?cs) \<and>
              length (childNodes (nodes s' ?w)) = nat ?count)"
  proof (cases isWrapped)
    case True
    with u have s': "s' = s1" by (simp add: unfold)
    from wr [OF True] have t: "tagName s marker = Some ''BLAZOR-COMPONENT''" by simp
    have "tagName s1 marker = tagName s marker"
      using evolvesD(3) [OF ev m] evolvesD(4) [OF ev m] by (simp add: tagName_def)
    moreover have "\<not> binds referenceFrames cid \<Longrightarrow> childComponentLocations s1 cid = Some marker"
      using evolvesD(5) [OF ev] loc by simp
    ultimately show ?thesis using True ok1 t by (simp add: s')
  next
    case False
    show ?thesis
    proof (cases "?count = 1")
      case True
      with u False have s': "s' = s1\<lparr> childComponentLocations :=
                        (childComponentLocations s1)(cid := child_at ?cs childIndex) \<rparr>"
        by (simp add: unfold)
      have "dom_ok s'" unfolding s' dom_ok_locations by (rule ok1)
      with False True s' show ?thesis by simp
    next
      case ne: False
      from u False ne obtain s3 s4 where
        ins: "insertNodeIntoDOM (snd (alloc s1 ?n0)) ?w (Some parent) childIndex = Inr s3"
        and wl: "wrap_loop s3 ?w parent childIndex 0 ?count = Inr s4"
        and s': "s' = s4\<lparr> childComponentLocations := (childComponentLocations s4)(cid := Some ?w) \<rparr>"
        by (auto simp: unfold split: sum.splits)
      have n0: "parentNode ?n0 = None" "childNodes ?n0 = []" by (simp_all add: blank_def)
      note new = spliced_insert_new [OF ok1 p1 n0 ins]
      have ok3: "dom_ok s3" using new(1) by (rule evolvesD(1) [OF splicedD(1)])
      have nx3: "nextNode s3 = Suc ?w" by (rule new(3))
      have P3: "parent < nextNode s3" and w3: "?w < nextNode s3" using p1 by (simp_all add: nx3)
      have kids3: "childNodes (nodes s3 parent) =
                     take (nat childIndex) ?cs @ ?w # drop (nat childIndex) ?cs"
        using k by (rule new(5))
      have nd3: "nodes s3 ?w = ?n0\<lparr> parentNode := Some parent \<rparr>" by (rule new(2))
      note mv = wrap_loop_from_cursor [OF ok3 P3 w3 kids3 k wl]
      have "dom_ok s'" unfolding s' dom_ok_locations by (rule mv(1))
      moreover have "childComponentLocations s' = (childComponentLocations s1)(cid := Some ?w)"
        by (simp add: s' mv(6) new(4))
      moreover have "tagName s' ?w = Some ''BLAZOR-COMPONENT''"
        by (simp add: s' tagName_def mv(7,8) nd3 blank_def to_lower_def to_upper_def)
      moreover have "parentNode (nodes s' ?w) = Some parent"
        by (simp add: s' mv(9) nd3)
      moreover have "childNodes (nodes s' parent) =
                take (nat childIndex) ?cs @ ?w # drop (nat childIndex + nat ?count) ?cs"
        by (simp add: s' mv(3))
      moreover have c: "childNodes (nodes s' ?w) = take (nat ?count) (drop (nat childIndex) ?cs)"
        by (simp add: s' mv(4) nd3 blank_def)
      moreover have "length (childNodes (nodes s' ?w)) = nat ?count"
        unfolding c by (rule mv(5))
      ultimately show ?thesis using False ne by simp
    qed
  qed
  with l a show ?thesis by blast
qed


lemma dom_ok_bare_document: "dom_ok bare_document"
  by (auto simp: dom_ok_def tree_ok_def bare_document_def document0_def blank_def less_Suc_eq)

lemmas evaluate_update =
  updateComponent_def locate_def parentElement_def removeChild_def applyEdits_def walk_start_def
  applyEdits_loop.simps getRenderTreeEditPtr_def removeNodeFromDOM_def wrap_loop.simps
  bare_document_def

lemma wrap_example:
  "\<exists>s'. updateComponent bare_document 5 [PrependFrame 1 1, PrependFrame 2 2] 0 2
           [text_frame ''a'', text_frame ''b'', text_frame ''c''] = Inr s' \<and>
        childComponentLocations s' 5 = Some 4 \<and> nextNode s' = 5 \<and>
        tagName s' 4 = Some ''BLAZOR-COMPONENT'' \<and>
        childNodes (nodes s' 0) = [4] \<and> childNodes (nodes s' 4) = [1, 2, 3] \<and>
        (\<exists>s''. updateComponent s' 5 [RemoveFrame 1, RemoveFrame 1] 0 2
                  [text_frame ''a'', text_frame ''b'', text_frame ''c''] = Inr s'' \<and>
               childComponentLocations s'' 5 = Some 4 \<and>
               childNodes (nodes s'' 0) = [4] \<and> childNodes (nodes s'' 4) = [1])"
  by (simp add: evaluate_update evaluate_insert)


text \<open>
  The wrapping transition: a component that occupies one node and re-renders to three
  ends up in a wrapper that holds the three; re-rendered to one node, it stays wrapped.
\<close>

lemma wrapping_transition:
  "dom_ok bare_document \<and> childComponentLocations bare_document 5 = Some 1 \<and>
   (\<exists>s'. updateComponent bare_document 5 [PrependFrame 1 1, PrependFrame 2 2] 0 2
            [text_frame ''a'', text_frame ''b'', text_frame ''c''] = Inr s' \<and>
         dom_ok s' \<and> childComponentLocations s' 5 = Some 4 \<and>
         tagName s' 4 = Some ''BLAZOR-COMPONENT'' \<and> parentNode (nodes s' 4) = Some 0 \<and>
         childNodes (nodes s' 0) = [4] \<and> childNodes (nodes s' 4) = [1, 2, 3] \<and>
         (\<exists>s''. updateComponent s' 5 [RemoveFrame 1, RemoveFrame 1] 0 2
                   [text_frame ''a'', text_frame ''b'', text_frame ''c''] = Inr s'' \<and>
                dom_ok s'' \<and> childComponentLocations s'' 5 = Some 4 \<and>
                tagName s'' 4 = Some ''BLAZOR-COMPONENT'' \<and>
                childNodes (nodes s'' 0) = [4] \<and> childNodes (nodes s'' 4) = [1]))"
proof -
  let ?F = "[text_frame ''a'', text_frame ''b'', text_frame ''c'']"
  from wrap_example obtain s' s'' where
    u1: "updateComponent bare_document 5 [PrependFrame 1 1, PrependFrame 2 2] 0 2 ?F = Inr s'"
    and loc1: "childComponentLocations s' 5 = Some 4" and nx1: "nextNode s' = 5"
    and tag1: "tagName s' 4 = Some ''BLAZOR-COMPONENT''"
    and top1: "childNodes (nodes s' 0) = [4]" and in1: "childNodes (nodes s' 4) = [1, 2, 3]"
    and u2: "updateComponent s' 5 [RemoveFrame 1, RemoveFrame 1] 0 2 ?F = Inr s''"
    and loc2: "childComponentLocations s'' 5 = Some 4"
    and top2: "childNodes (nodes s'' 0) = [4]" and in2: "childNodes (nodes s'' 4) = [1]"
    by blast
  have loc0: "childComponentLocations bare_document 5 = Some 1"
    and m0: "1 < nextNode bare_document"
    by (simp_all add: bare_document_def document0_def)
  have l0: "locate bare_document 1 = Inr (0, 0, 1, False, bare_document)"
    by (simp add: locate_def parentElement_def bare_document_def document0_def blank_def)
  have a0: "\<exists>s1. applyEdits bare_document 5 (Some 0) 0 [PrependFrame 1 1, PrependFrame 2 2] 0 2 ?F =
                 Inr (2, s1) \<and> nextNode s1 = 4"
    by (simp add: evaluate_update evaluate_insert)
  from updateComponent_after_walk [OF dom_ok_bare_document loc0 m0 u1] l0 a0
  have ok1: "dom_ok s'" and par1: "parentNode (nodes s' 4) = Some 0"
    by auto
  have m1: "4 < nextNode s'" by (simp add: nx1)
  from tag1 have el: "nodeType (nodes s' 4) = ElementNode"
    by (simp add: tagName_def split: if_splits)
  have l1: "locate s' 4 = Inr (4, 0, 3, True, s')"
    by (simp add: locate_def el tag1 in1)
  from updateComponent_after_walk [OF ok1 loc1 m1 u2] l1
  have ok2: "dom_ok s''" and tag2: "tagName s'' 4 = Some ''BLAZOR-COMPONENT''"
    by auto
  from dom_ok_bare_document loc0 u1 ok1 loc1 tag1 par1 top1 in1 u2 ok2 loc2 tag2 top2 in2
  show ?thesis by blast
qed

text \<open>Definitions to unfold when components are attached and inserted.\<close>

lemmas evaluate_component =
  attachComponentToElement_def insertComponent_def insertComponentMarker_def createComment_def
  component_frame_def

text \<open>
  C1.  The claim is that after \<^verbatim>\<open>updateComponent\<close> the number of top-level nodes of the
  component in the tree is the number it occupied before the walk plus the change the
  walk returns, a number of 1 being recorded as a bare node and any other number as a
  new wrapper holding that many nodes.  The code does not do this for a component whose
  one top-level node is a comment.  It tells a placeholder from a bare node by
  \<^verbatim>\<open>marker instanceof Comment\<close> alone (line 28), where the remark on that line says it
  should be the case only for the marker of this component.

  Component 1 is attached to the \<^verbatim>\<open><div>\<close> (node 0).  Its first update inserts one
  component frame, for component 2: the walk returns 1, and the placeholder of component
  2 (the comment node 2) is recorded as the bare node of component 1, while it is also
  the registered node of component 2.  The next update of component 1 has no edits.
  Component 1 has one node in the tree and the walk returns 0, so it should have one
  node afterwards and keep its bare node.  Instead \<open>locate\<close> counts 0 nodes and removes
  node 2 from the tree; the sum is 0, and an empty wrapper (node 3) is created and
  recorded.  Node 2, still the registered node of component 2, has no parent any more,
  and the first update of component 2 fails with a type error.
\<close>

theorem updateComponent_child_marker_miscounted:
  "\<exists>s1 s2 s3.
     attachComponentToElement document0 1 0 = Inr s1 \<and>
     updateComponent s1 1 [PrependFrame 0 0] 0 1 [component_frame 2] = Inr s2 \<and>
     childNodes (nodes s2 0) = [2] \<and> nodeType (nodes s2 2) = CommentNode \<and>
     childComponentLocations s2 1 = Some 2 \<and> childComponentLocations s2 2 = Some 2 \<and>
     (\<exists>s0. locate s2 2 = Inr (0, 0, 0, False, s0) \<and> childNodes (nodes s0 0) = [] \<and>
           applyEdits s0 1 (Some 0) 0 [] 0 0 [component_frame 2] = Inr (0, s0)) \<and>
     updateComponent s2 1 [] 0 0 [component_frame 2] = Inr s3 \<and>
     childNodes (nodes s3 0) = [3] \<and> tagName s3 3 = Some ''BLAZOR-COMPONENT'' \<and>
     childNodes (nodes s3 3) = [] \<and> childComponentLocations s3 1 = Some 3 \<and>
     childComponentLocations s3 2 = Some 2 \<and> parentNode (nodes s3 2) = None \<and>
     updateComponent s3 2 [PrependFrame 0 0] 0 1 [text_frame ''a''] = Inl TypeError"
  by (simp add: evaluate_component evaluate_update evaluate_insert)

end
